theory Spec2Isabelle
  imports Main "HOL-Library.Word"
begin

unbundle bit_operations_syntax

section \<open>The debug unit (DBGU) serial driver of serial\_demo.c\<close>

text \<open>
  The driver talks to a memory-mapped UART through six volatile 32-bit registers and
  formats text with a small printf. The embedding keeps the C source's names.

  \<^item> \<open>unsigned char\<close> and \<open>char\<close> bytes are \<open>8 word\<close>, \<open>uint32_t\<close> and
    \<open>unsigned int\<close> are \<open>32 word\<close>, \<open>unsigned long\<close> and pointers are
    \<open>'a word\<close> for any width \<open>'a\<close> (\<open>sizeof\<close> is the width in bytes).
  \<^item> Every volatile access is an event of a trace. What the hardware answers to the
    k-th read of the status register and of the receive register is a parameter of the
    state, so that a theorem for all states covers every behaviour of the device.
  \<^item> A busy-wait loop that never sees its bit does not return: the result \<open>Hang\<close>.
    Undefined behaviour of C (an index outside an array, a read of a cell never written,
    a \<open>va_arg\<close> of the wrong type, a division by zero) is the result \<open>Fault\<close>.
\<close>

subsection \<open>Machine types and results\<close>

type_synonym u8 = "8 word"
type_synonym u32 = "32 word"

text \<open>A byte of memory: \<open>None\<close> is a cell of an array that was never written.\<close>

type_synonym cell = "u8 option"

datatype fault = OutOfBounds | Indeterminate | BadVaArg | DivByZero

datatype 'a result = Done 'a | Hang | Fault fault

fun andThen :: "'a result \<Rightarrow> ('a \<Rightarrow> 'b result) \<Rightarrow> 'b result" where
  "andThen (Done x) f = f x"
| "andThen Hang f = Hang"
| "andThen (Fault e) f = Fault e"

text \<open>A character constant of the source, as its byte.\<close>

abbreviation chr :: "char \<Rightarrow> u8" where
  "chr c \<equiv> of_char c"

text \<open>A string literal of the source: its bytes and the terminating zero.\<close>

definition c_lit :: "string \<Rightarrow> cell list" where
  "c_lit s = map (\<lambda>c. Some (chr c)) s @ [Some 0]"

text \<open>Array accesses \<open>a[i]\<close> and \<open>a[i] = b\<close> with a C \<open>int\<close> index, checked.\<close>

definition rd :: "cell list \<Rightarrow> int \<Rightarrow> u8 result" where
  "rd a i =
     (if 0 \<le> i \<and> i < int (length a)
      then (case a ! nat i of None \<Rightarrow> Fault Indeterminate | Some b \<Rightarrow> Done b)
      else Fault OutOfBounds)"

definition wr :: "cell list \<Rightarrow> int \<Rightarrow> u8 \<Rightarrow> cell list result" where
  "wr a i b =
     (if 0 \<le> i \<and> i < int (length a) then Done (a[nat i := Some b]) else Fault OutOfBounds)"

subsection \<open>Registers\<close>

datatype reg = DBGU_CR | DBGU_MR | DBGU_SR | DBGU_RHR | DBGU_THR | DBGU_BRGR

definition DBGU_BASE :: u32 where
  "DBGU_BASE = 0xFFFFF200"

fun reg_addr :: "reg \<Rightarrow> u32" where
  "reg_addr DBGU_CR = DBGU_BASE + 0x00"
| "reg_addr DBGU_MR = DBGU_BASE + 0x04"
| "reg_addr DBGU_SR = DBGU_BASE + 0x14"
| "reg_addr DBGU_RHR = DBGU_BASE + 0x18"
| "reg_addr DBGU_THR = DBGU_BASE + 0x1C"
| "reg_addr DBGU_BRGR = DBGU_BASE + 0x20"

definition CR_RSTRX :: u32 where "CR_RSTRX = push_bit 2 1"
definition CR_RSTTX :: u32 where "CR_RSTTX = push_bit 3 1"
definition CR_RXEN :: u32 where "CR_RXEN = push_bit 4 1"
definition CR_TXEN :: u32 where "CR_TXEN = push_bit 6 1"

definition SR_RXRDY :: u32 where "SR_RXRDY = push_bit 0 1"
definition SR_TXRDY :: u32 where "SR_TXRDY = push_bit 1 1"

definition MR_PAR_NONE :: u32 where "MR_PAR_NONE = push_bit 9 4"

datatype event = Rd reg u32 | Wr reg u32

text \<open>
  The state of the device as the program sees it: \<open>sr_vals h k\<close> is what the k-th read
  of DBGU\_SR returns and \<open>sr_cnt h\<close> counts the reads made so far; likewise for
  DBGU\_RHR. \<open>trace h\<close> lists every volatile access in program order.
\<close>

record hw =
  sr_vals :: "nat \<Rightarrow> u32"
  sr_cnt :: nat
  rhr_vals :: "nat \<Rightarrow> u32"
  rhr_cnt :: nat
  trace :: "event list"

definition write_reg :: "reg \<Rightarrow> u32 \<Rightarrow> hw \<Rightarrow> hw" where
  "write_reg r v h = h\<lparr>trace := trace h @ [Wr r v]\<rparr>"

definition read_SR :: "hw \<Rightarrow> u32 \<times> hw" where
  "read_SR h =
     (sr_vals h (sr_cnt h),
      h\<lparr>sr_cnt := Suc (sr_cnt h), trace := trace h @ [Rd DBGU_SR (sr_vals h (sr_cnt h))]\<rparr>)"

definition read_RHR :: "hw \<Rightarrow> u32 \<times> hw" where
  "read_RHR h =
     (rhr_vals h (rhr_cnt h),
      h\<lparr>rhr_cnt := Suc (rhr_cnt h), trace := trace h @ [Rd DBGU_RHR (rhr_vals h (rhr_cnt h))]\<rparr>)"

subsection \<open>dbgu\_init\<close>

text \<open>
  \<^verbatim>\<open>DBGU_CR = CR_RSTRX | CR_RSTTX; DBGU_MR = MR_PAR_NONE;
  DBGU_BRGR = (MCK / (16 * BAUD)); DBGU_CR = CR_RXEN | CR_TXEN;\<close>
  MCK and BAUD are macros the build may set; their defaults are \<open>unsigned int\<close>
  constants, so the product and the quotient are computed in 32 bits.
\<close>

definition dbgu_init :: "u32 \<Rightarrow> u32 \<Rightarrow> hw \<Rightarrow> hw result" where
  "dbgu_init MCK BAUD h =
     (let h1 = write_reg DBGU_CR (CR_RSTRX OR CR_RSTTX) h;
          h2 = write_reg DBGU_MR MR_PAR_NONE h1
      in if 16 * BAUD = 0 then Fault DivByZero
         else let h3 = write_reg DBGU_BRGR (MCK div (16 * BAUD)) h2;
                  h4 = write_reg DBGU_CR (CR_RXEN OR CR_TXEN) h3
              in Done h4)"

subsection \<open>The busy-wait loop, dbgu\_putc, dbgu\_getc, dbgu\_puts\<close>

text \<open>
  \<^verbatim>\<open>while(!(DBGU_SR & m)){}\<close>: each turn reads the status register once. The loop has
  no bound, so it is a partial function: \<open>None\<close> is the loop that never ends.
\<close>

partial_function (option) wait_sr :: "u32 \<Rightarrow> hw \<Rightarrow> hw option" where
  [code]: "wait_sr m h =
     (case read_SR h of (v, h') \<Rightarrow> if v AND m = 0 then wait_sr m h' else Some h')"

definition busy_wait :: "u32 \<Rightarrow> hw \<Rightarrow> hw result" where
  "busy_wait m h = (case wait_sr m h of None \<Rightarrow> Hang | Some h' \<Rightarrow> Done h')"

definition dbgu_putc :: "u8 \<Rightarrow> hw \<Rightarrow> hw result" where
  "dbgu_putc c h =
     andThen
       (if c = chr CHR 0x0A
        then andThen (busy_wait SR_TXRDY h)
               (\<lambda>h1. Done (write_reg DBGU_THR (ucast (chr CHR 0x0D)) h1))
        else Done h)
       (\<lambda>h2. andThen (busy_wait SR_TXRDY h2)
               (\<lambda>h3. Done (write_reg DBGU_THR (ucast c) h3)))"

definition dbgu_getc :: "hw \<Rightarrow> (u8 \<times> hw) result" where
  "dbgu_getc h =
     andThen (busy_wait SR_RXRDY h)
       (\<lambda>h1. case read_RHR h1 of (v, h2) \<Rightarrow> Done (ucast v, h2))"

text \<open>
  A \<open>const char*\<close> is \<open>None\<close> (the null pointer) or the cells of its object from the
  pointer on. \<^verbatim>\<open>while(*s) dbgu_putc((unsigned char)*s++);\<close>
\<close>

fun puts_loop :: "cell list \<Rightarrow> hw \<Rightarrow> hw result" where
  "puts_loop [] h = Fault OutOfBounds"
| "puts_loop (None # s) h = Fault Indeterminate"
| "puts_loop (Some c # s) h =
     (if c = 0 then Done h else andThen (dbgu_putc c h) (\<lambda>h'. puts_loop s h'))"

definition dbgu_puts :: "cell list option \<Rightarrow> hw \<Rightarrow> hw result" where
  "dbgu_puts s h = (case s of None \<Rightarrow> Done h | Some p \<Rightarrow> puts_loop p h)"

subsection \<open>utoa\_hex\<close>

text \<open>\<open>sizeof\<close> of an \<open>unsigned long\<close> value, in bytes of 8 bits.\<close>

definition sizeof_ulong :: "'a::len word \<Rightarrow> nat" where
  "sizeof_ulong v = LENGTH('a) div 8"

definition d :: "cell list" where
  "d = c_lit ''0123456789abcdef''"

text \<open>\<^verbatim>\<open>while(v){ tmp[i++] = d[v & 0xFu]; v >>= 4; }\<close>\<close>

function utoa_hex_while :: "'a::len word \<Rightarrow> cell list \<Rightarrow> int \<Rightarrow> (cell list \<times> int) result" where
  "utoa_hex_while v tmp i =
     (if v = 0 then Done (tmp, i)
      else andThen (rd d (uint (v AND 0xF)))
             (\<lambda>c. andThen (wr tmp i c)
               (\<lambda>tmp'. utoa_hex_while (drop_bit 4 v) tmp' (i + 1))))"
  by pat_completeness auto
termination
proof (relation "measure (\<lambda>(v, tmp, i). unat v)")
  show "wf (measure (\<lambda>(v :: 'a word, tmp :: cell list, i :: int). unat v))"
    by simp
next
  fix v :: "'a word" and tmp tmp' :: "cell list" and i :: int and c :: u8
  assume "v \<noteq> 0"
  then have "0 < unat v"
    by (simp add: unat_gt_0)
  then have "unat v div 16 < unat v"
    by simp
  moreover have "unat (drop_bit 4 v) = unat v div 16"
    unfolding unat_drop_bit_eq by (simp add: drop_bit_eq_div)
  ultimately show "((drop_bit 4 v, tmp', i + 1), (v, tmp, i)) \<in> measure (\<lambda>(v, tmp, i). unat v)"
    by simp
qed

text \<open>\<^verbatim>\<open>for(j=0;j<i;++j) buf[j] = tmp[i-1-j];\<close>\<close>

function utoa_hex_for :: "cell list \<Rightarrow> int \<Rightarrow> int \<Rightarrow> cell list \<Rightarrow> cell list result" where
  "utoa_hex_for tmp i j buf =
     (if j < i
      then andThen (rd tmp (i - 1 - j))
             (\<lambda>c. andThen (wr buf j c)
               (\<lambda>buf'. utoa_hex_for tmp i (j + 1) buf'))
      else Done buf)"
  by pat_completeness auto
termination
  by (relation "measure (\<lambda>(tmp, i, j, buf). nat (i - j))") auto

text \<open>
  \<open>tmp\<close> is a local array of \<open>2*sizeof(unsigned long)\<close> cells, none written yet;
  \<open>buf\<close> is the caller's array and the result is its new content.
\<close>

definition utoa_hex :: "'a::len word \<Rightarrow> cell list \<Rightarrow> cell list result" where
  "utoa_hex v buf =
     (if v = 0
      then andThen (wr buf 0 (chr CHR ''0'')) (\<lambda>buf1. wr buf1 1 0)
      else andThen (utoa_hex_while v (replicate (2 * sizeof_ulong v) None) 0)
             (\<lambda>(tmp, i). andThen (utoa_hex_for tmp i 0 buf)
               (\<lambda>buf1. wr buf1 i 0)))"

subsection \<open>tiny\_printf\<close>

text \<open>
  The variable arguments, each with the type it was passed at (after the default
  promotions): \<open>int\<close>, \<open>const char*\<close>, \<open>unsigned int\<close>, \<open>void*\<close> (the
  address \<open>'p\<close>, an \<open>unsigned long\<close> wide). \<open>va_arg\<close> at another type, or past
  the last argument, is undefined.
\<close>

datatype 'p va_item = VaInt u32 | VaStr "cell list option" | VaUInt u32 | VaPtr 'p

fun va_arg_int :: "'p va_item list \<Rightarrow> (u32 \<times> 'p va_item list) result" where
  "va_arg_int (VaInt v # ap) = Done (v, ap)"
| "va_arg_int _ = Fault BadVaArg"

fun va_arg_str :: "'p va_item list \<Rightarrow> (cell list option \<times> 'p va_item list) result" where
  "va_arg_str (VaStr s # ap) = Done (s, ap)"
| "va_arg_str _ = Fault BadVaArg"

fun va_arg_uint :: "'p va_item list \<Rightarrow> (u32 \<times> 'p va_item list) result" where
  "va_arg_uint (VaUInt v # ap) = Done (v, ap)"
| "va_arg_uint _ = Fault BadVaArg"

fun va_arg_ptr :: "'p va_item list \<Rightarrow> ('p \<times> 'p va_item list) result" where
  "va_arg_ptr (VaPtr v # ap) = Done (v, ap)"
| "va_arg_ptr _ = Fault BadVaArg"

text \<open>
  The body of the \<open>for\<close> loop over the format string, from the cell \<open>p\<close> points to.
  The first two equations are the reads of \<open>*p\<close> that C leaves undefined.
\<close>

fun tiny_printf_loop :: "cell list \<Rightarrow> 'a::len word va_item list \<Rightarrow> hw \<Rightarrow> hw result" where
  "tiny_printf_loop [] ap h = Fault OutOfBounds"
| "tiny_printf_loop (None # p) ap h = Fault Indeterminate"
| "tiny_printf_loop (Some c # p) ap h =
     (if c = 0 then Done h
      else if c \<noteq> chr CHR ''%'' then andThen (dbgu_putc c h) (\<lambda>h'. tiny_printf_loop p ap h')
      else (case p of
          [] \<Rightarrow> Fault OutOfBounds
        | None # p' \<Rightarrow> Fault Indeterminate
        | Some e # p' \<Rightarrow>
            if e = 0 then dbgu_putc (chr CHR ''%'') h
            else if e = chr CHR ''%'' then
              andThen (dbgu_putc (chr CHR ''%'') h) (\<lambda>h'. tiny_printf_loop p' ap h')
            else if e = chr CHR ''c'' then
              andThen (va_arg_int ap)
                (\<lambda>(v, ap'). andThen (dbgu_putc (ucast v) h) (\<lambda>h'. tiny_printf_loop p' ap' h'))
            else if e = chr CHR ''s'' then
              andThen (va_arg_str ap)
                (\<lambda>(s, ap'). andThen
                    (dbgu_puts (Some (case s of None \<Rightarrow> c_lit ''(null)'' | Some q \<Rightarrow> q)) h)
                    (\<lambda>h'. tiny_printf_loop p' ap' h'))
            else if e = chr CHR ''x'' then
              andThen (va_arg_uint ap)
                (\<lambda>(v, ap'). andThen (utoa_hex (ucast v :: 'a word) (replicate 9 None))
                  (\<lambda>b. andThen (dbgu_puts (Some b) h) (\<lambda>h'. tiny_printf_loop p' ap' h')))
            else if e = chr CHR ''p'' then
              andThen (va_arg_ptr ap)
                (\<lambda>(v, ap'). andThen (dbgu_puts (Some (c_lit ''0x'')) h)
                  (\<lambda>h1. andThen (utoa_hex v (replicate (2 * sizeof_ulong v + 1) None))
                    (\<lambda>b. andThen (dbgu_puts (Some b) h1) (\<lambda>h2. tiny_printf_loop p' ap' h2))))
            else
              andThen (dbgu_putc (chr CHR ''%'') h)
                (\<lambda>h1. andThen (dbgu_putc e h1) (\<lambda>h2. tiny_printf_loop p' ap h2))))"

definition tiny_printf :: "cell list \<Rightarrow> 'a::len word va_item list \<Rightarrow> hw \<Rightarrow> (int \<times> hw) result" where
  "tiny_printf fmt ap h = andThen (tiny_printf_loop fmt ap h) (\<lambda>h'. Done (0, h'))"

subsection \<open>Notions the properties are stated with\<close>

text \<open>The device before the program made any access, with the given answers to reads.\<close>

definition power_on :: "(nat \<Rightarrow> u32) \<Rightarrow> (nat \<Rightarrow> u32) \<Rightarrow> hw" where
  "power_on sr rhr = \<lparr>sr_vals = sr, sr_cnt = 0, rhr_vals = rhr, rhr_cnt = 0, trace = []\<rparr>"

text \<open>A register that answers 0 to every read.\<close>

definition silent :: "nat \<Rightarrow> u32" where
  "silent k = 0"

text \<open>
  \<open>ready_at m h k n\<close>: of the status reads number \<open>k\<close>, \<open>k + 1\<close>, ... the read number
  \<open>n\<close> is the first that shows a bit of \<open>m\<close>. \<open>polls h k n\<close> are the reads \<open>k\<close> to
  \<open>n\<close> as events.
\<close>

definition ready_at :: "u32 \<Rightarrow> hw \<Rightarrow> nat \<Rightarrow> nat \<Rightarrow> bool" where
  "ready_at m h k n \<longleftrightarrow>
     k \<le> n \<and> (\<forall>j\<in>{k..<n}. sr_vals h j AND m = 0) \<and> sr_vals h n AND m \<noteq> 0"

definition polls :: "hw \<Rightarrow> nat \<Rightarrow> nat \<Rightarrow> event list" where
  "polls h k n = map (\<lambda>j. Rd DBGU_SR (sr_vals h j)) [k..<Suc n]"

text \<open>The transmitter never stays busy for ever: after every read a later one shows TXRDY.\<close>

definition tx_live :: "hw \<Rightarrow> bool" where
  "tx_live h \<longleftrightarrow> (\<forall>k. \<exists>n\<ge>k. sr_vals h n AND SR_TXRDY \<noteq> 0)"

text \<open>The bytes written to the transmit register, in order: what goes out on the line.\<close>

fun tx_bytes :: "event list \<Rightarrow> u8 list" where
  "tx_bytes [] = []"
| "tx_bytes (Wr r v # es) = (if r = DBGU_THR then ucast v # tx_bytes es else tx_bytes es)"
| "tx_bytes (Rd r v # es) = tx_bytes es"

definition wire :: "hw \<Rightarrow> u8 list" where
  "wire h = tx_bytes (trace h)"

text \<open>Sending the characters of a list one after the other, each with dbgu\_putc.\<close>

fun send_all :: "u8 list \<Rightarrow> hw \<Rightarrow> hw result" where
  "send_all [] h = Done h"
| "send_all (c # cs) h = andThen (dbgu_putc c h) (\<lambda>h'. send_all cs h')"

text \<open>The bytes a list of characters becomes on the line: a carriage return before each newline.\<close>

definition crlf :: "u8 list \<Rightarrow> u8 list" where
  "crlf cs = concat (map (\<lambda>c. if c = chr CHR 0x0A then [chr CHR 0x0D, c] else [c]) cs)"

text \<open>
  \<open>guarded m r ok es\<close>: in the events \<open>es\<close> every access to the register \<open>r\<close> comes
  right after a read of the status register that showed a bit of \<open>m\<close> (\<open>ok\<close> says
  whether the event before \<open>es\<close> was such a read).
\<close>

fun guarded :: "u32 \<Rightarrow> reg \<Rightarrow> bool \<Rightarrow> event list \<Rightarrow> bool" where
  "guarded m r ok [] = True"
| "guarded m r ok (Rd q v # es) =
     ((q \<noteq> r \<or> ok) \<and> guarded m r (q = DBGU_SR \<and> v AND m \<noteq> 0) es)"
| "guarded m r ok (Wr q v # es) = ((q \<noteq> r \<or> ok) \<and> guarded m r False es)"

text \<open>
  Hexadecimal notation, written as the spec words it and not as utoa\_hex computes it:
  \<open>hex_render n\<close> is the numeral of \<open>n\<close> in base 16, most significant digit first,
  with the digits \<open>0\<close> to \<open>9\<close> and \<open>a\<close> to \<open>f\<close>; \<open>parse_hex\<close> reads a numeral back.
\<close>

definition hex_digit :: "nat \<Rightarrow> u8" where
  "hex_digit k = chr (''0123456789abcdef'' ! k)"

function hex_render :: "nat \<Rightarrow> u8 list" where
  "hex_render n = (if n < 16 then [hex_digit n] else hex_render (n div 16) @ [hex_digit (n mod 16)])"
  by pat_completeness auto
termination
  by (relation "measure (\<lambda>n. n)") auto

definition hex_val :: "u8 \<Rightarrow> nat option" where
  "hex_val c =
     (if chr CHR ''0'' \<le> c \<and> c \<le> chr CHR ''9'' then Some (unat c - 48)
      else if chr CHR ''a'' \<le> c \<and> c \<le> chr CHR ''f'' then Some (unat c - 87)
      else if chr CHR ''A'' \<le> c \<and> c \<le> chr CHR ''F'' then Some (unat c - 55)
      else None)"

fun parse_hex_from :: "nat \<Rightarrow> u8 list \<Rightarrow> nat option" where
  "parse_hex_from acc [] = Some acc"
| "parse_hex_from acc (c # cs) =
     (case hex_val c of None \<Rightarrow> None | Some k \<Rightarrow> parse_hex_from (16 * acc + k) cs)"

definition parse_hex :: "u8 list \<Rightarrow> nat option" where
  "parse_hex cs = (if cs = [] then None else parse_hex_from 0 cs)"

text \<open>The digits of \<open>n\<close> least significant first, none for 0: what utoa\_hex collects in \<open>tmp\<close>.\<close>

definition hex_digits_lsf :: "nat \<Rightarrow> u8 list" where
  "hex_digits_lsf n = (if n = 0 then [] else rev (hex_render n))"

section \<open>Properties\<close>

subsection \<open>Initialisation\<close>

text \<open>
  C1, as amended. MCK and BAUD are \<open>unsigned int\<close> constants, so 16 * BAUD and the
  quotient are computed modulo 2^32. Whenever 16 * BAUD is not zero there, dbgu\_init
  makes exactly four register writes and no read, in this order: the control register
  with the bits 2 (reset receiver) and 3 (reset transmitter) in one write (the value
  12), the mode register with 4 << 9 = 2048, the baud rate register with
  MCK / (16 * BAUD) in that arithmetic, the control register with the bits 4 (receiver
  enable) and 6 (transmitter enable), the value 0x50. The value written to the baud
  rate register is the integer quotient of the numbers whenever BAUD is positive and
  16 * BAUD is below 2^32. For MCK = 60000000 and BAUD = 115200 the divisor written
  is 32.
\<close>

theorem dbgu_init_writes:
  "(16 * BAUD \<noteq> 0 \<longrightarrow>
      dbgu_init MCK BAUD h =
        Done (h\<lparr>trace := trace h @
          [Wr DBGU_CR 12, Wr DBGU_MR 2048, Wr DBGU_BRGR (MCK div (16 * BAUD)), Wr DBGU_CR 0x50]\<rparr>))
   \<and> (0 < unat BAUD \<and> 16 * unat BAUD < 2 ^ 32 \<longrightarrow>
        16 * BAUD \<noteq> 0 \<and> unat (MCK div (16 * BAUD)) = unat MCK div (16 * unat BAUD))
   \<and> {n. bit (CR_RSTRX OR CR_RSTTX) n} = {2, 3}
   \<and> {n. bit (CR_RXEN OR CR_TXEN) n} = {4, 6}
   \<and> MR_PAR_NONE = 2048
   \<and> dbgu_init 60000000 115200 h =
        Done (h\<lparr>trace := trace h @
          [Wr DBGU_CR 12, Wr DBGU_MR 2048, Wr DBGU_BRGR 32, Wr DBGU_CR 0x50]\<rparr>)"
proof -
  have vals: "CR_RSTRX OR CR_RSTTX = 12" "CR_RXEN OR CR_TXEN = 0x50" "MR_PAR_NONE = 2048"
    by (simp_all add: CR_RSTRX_def CR_RSTTX_def CR_RXEN_def CR_TXEN_def MR_PAR_NONE_def)
  have run: "dbgu_init M B h =
        Done (h\<lparr>trace := trace h @
          [Wr DBGU_CR 12, Wr DBGU_MR 2048, Wr DBGU_BRGR (M div (16 * B)), Wr DBGU_CR 0x50]\<rparr>)"
    if "16 * B \<noteq> 0" for M B
    using that by (simp add: dbgu_init_def Let_def write_reg_def vals)
  have exact: "16 * BAUD \<noteq> 0 \<and> unat (MCK div (16 * BAUD)) = unat MCK div (16 * unat BAUD)"
    if "0 < unat BAUD" "16 * unat BAUD < 2 ^ 32"
  proof -
    have u: "unat (16 * BAUD) = 16 * unat BAUD"
      using that by (simp add: unat_word_ariths)
    then have "16 * BAUD \<noteq> 0"
      using that by (metis mult_is_0 not_less_zero unat_0 zero_neq_numeral less_numeral_extra(3))
    then show ?thesis
      by (simp add: unat_div u)
  qed
  have "bit (CR_RSTRX OR CR_RSTTX) n \<longleftrightarrow> n = 2 \<or> n = 3" for n
    unfolding CR_RSTRX_def CR_RSTTX_def bit_or_iff bit_push_bit_iff bit_1_iff
    by (auto simp add: possible_bit_word)
  then have b1: "{n. bit (CR_RSTRX OR CR_RSTTX) n} = {2, 3}"
    by auto
  have "bit (CR_RXEN OR CR_TXEN) n \<longleftrightarrow> n = 4 \<or> n = 6" for n
    unfolding CR_RXEN_def CR_TXEN_def bit_or_iff bit_push_bit_iff bit_1_iff
    by (auto simp add: possible_bit_word)
  then have b2: "{n. bit (CR_RXEN OR CR_TXEN) n} = {4, 6}"
    by auto
  have ex: "dbgu_init 60000000 115200 h =
        Done (h\<lparr>trace := trace h @
          [Wr DBGU_CR 12, Wr DBGU_MR 2048, Wr DBGU_BRGR 32, Wr DBGU_CR 0x50]\<rparr>)"
    using run [of 115200 60000000] by simp
  show ?thesis
    using run exact b1 b2 ex vals(3) by blast
qed

theorem dbgu_init_writes_witness:
  "16 * (115200 :: u32) \<noteq> 0 \<and> 0 < unat (115200 :: u32) \<and> 16 * unat (115200 :: u32) < 2 ^ 32
   \<and> dbgu_init 60000000 115200 (power_on (\<lambda>k. 0) (\<lambda>k. 0)) =
       Done \<lparr>sr_vals = \<lambda>k. 0, sr_cnt = 0, rhr_vals = \<lambda>k. 0, rhr_cnt = 0,
         trace = [Wr DBGU_CR 12, Wr DBGU_MR 2048, Wr DBGU_BRGR 32, Wr DBGU_CR 0x50]\<rparr>
   \<and> unat ((60000000 :: u32) div (16 * 115200)) = 60000000 div (16 * 115200)"
  using dbgu_init_writes [of 115200 60000000 "power_on (\<lambda>k. 0) (\<lambda>k. 0)"]
  by (simp add: power_on_def)

text \<open>
  C1 as it was stated, for every positive clock frequency and baud rate, does not hold:
  the product 16 * BAUD wraps around at 2^32. With BAUD = 2^28 + 1 the product is 16
  there, and the baud rate register is written with 60000000 / 16 = 3750000, where the
  integer quotient 60000000 / (16 * (2^28 + 1)) is 0. With BAUD = 2^28 the product is
  0 there and the division is undefined: only the first two writes are made.
\<close>

theorem dbgu_init_writes_counterexample:
  "0 < unat (268435457 :: u32)
   \<and> dbgu_init 60000000 268435457 (power_on silent silent) =
       Done ((power_on silent silent)\<lparr>trace :=
         [Wr DBGU_CR 12, Wr DBGU_MR 2048, Wr DBGU_BRGR 3750000, Wr DBGU_CR 0x50]\<rparr>)
   \<and> unat (60000000 :: u32) div (16 * unat (268435457 :: u32)) = 0
   \<and> unat (3750000 :: u32) \<noteq> unat (60000000 :: u32) div (16 * unat (268435457 :: u32))
   \<and> 0 < unat (268435456 :: u32)
   \<and> dbgu_init 60000000 268435456 (power_on silent silent) = Fault DivByZero"
  by (simp add: dbgu_init_def Let_def write_reg_def power_on_def
      CR_RSTRX_def CR_RSTTX_def CR_RXEN_def CR_TXEN_def MR_PAR_NONE_def)

subsection \<open>The busy-wait loop\<close>

lemma polls_Cons: "k \<le> n \<Longrightarrow> polls h k n = Rd DBGU_SR (sr_vals h k) # (if k = n then [] else polls h (Suc k) n)"
  by (simp add: polls_def upt_conv_Cons)

lemma ready_at_here:
  "sr_vals h k AND m \<noteq> 0 \<Longrightarrow> ready_at m h k n \<longleftrightarrow> n = k"
  by (auto simp add: ready_at_def le_less)

lemma ready_at_later:
  "sr_vals h k AND m = 0 \<Longrightarrow> ready_at m h k n \<longleftrightarrow> ready_at m h (Suc k) n"
  by (auto simp add: ready_at_def le_less Suc_le_eq)

lemma wait_sr_ready:
  "ready_at m h (sr_cnt h) n \<Longrightarrow>
   wait_sr m h = Some (h\<lparr>sr_cnt := Suc n, trace := trace h @ polls h (sr_cnt h) n\<rparr>)"
proof (induction "n - sr_cnt h" arbitrary: h)
  case 0
  then have "n = sr_cnt h"
    by (simp add: ready_at_def)
  with "0.prems" have "sr_vals h (sr_cnt h) AND m \<noteq> 0"
    by (simp add: ready_at_def)
  then show ?case
    using \<open>n = sr_cnt h\<close>
    by (subst wait_sr.simps) (simp add: read_SR_def polls_def)
next
  case (Suc d)
  let ?h' = "snd (read_SR h)"
  from Suc.hyps(2) have lt: "sr_cnt h < n"
    by simp
  with Suc.prems have z: "sr_vals h (sr_cnt h) AND m = 0"
    by (simp add: ready_at_def)
  have cnt: "sr_cnt ?h' = Suc (sr_cnt h)" and vals: "sr_vals ?h' = sr_vals h"
    by (simp_all add: read_SR_def)
  have "ready_at m ?h' (sr_cnt ?h') n"
    using Suc.prems z lt by (simp add: cnt ready_at_def vals)
  moreover have "d = n - sr_cnt ?h'"
    using Suc.hyps(2) by (simp add: cnt)
  ultimately have "wait_sr m ?h' =
      Some (?h'\<lparr>sr_cnt := Suc n, trace := trace ?h' @ polls ?h' (sr_cnt ?h') n\<rparr>)"
    by (rule Suc.hyps(1) [rotated])
  moreover have "polls ?h' (Suc (sr_cnt h)) n = polls h (Suc (sr_cnt h)) n"
    by (simp add: polls_def vals)
  ultimately show ?case
    using z lt
    by (subst wait_sr.simps) (simp add: read_SR_def polls_Cons)
qed

lemma wait_sr_Some:
  assumes "wait_sr m h = Some h'"
  shows "\<exists>n. ready_at m h (sr_cnt h) n"
proof -
  have step: "\<exists>n. ready_at m h (sr_cnt h) n"
    if IH: "\<And>m h y. w m h = Some y \<Longrightarrow> \<exists>n. ready_at m h (sr_cnt h) n"
      and run: "(case read_SR h of (v, h') \<Rightarrow> if v AND m = 0 then w m h' else Some h') = Some y"
    for w m h y
  proof (cases "sr_vals h (sr_cnt h) AND m = 0")
    case True
    with run have "w m (snd (read_SR h)) = Some y"
      by (simp add: read_SR_def)
    then obtain n where "ready_at m (snd (read_SR h)) (sr_cnt (snd (read_SR h))) n"
      using IH by blast
    then have "ready_at m h (Suc (sr_cnt h)) n"
      by (simp add: read_SR_def ready_at_def)
    then show ?thesis
      using True ready_at_later by blast
  next
    case False
    then show ?thesis
      using ready_at_here by blast
  qed
  show ?thesis
    by (rule wait_sr.raw_induct [where P = "\<lambda>m h y. \<exists>n. ready_at m h (sr_cnt h) n", OF step assms])
qed

lemma ready_at_ex:
  "(\<exists>n. ready_at m h k n) \<longleftrightarrow> (\<exists>n\<ge>k. sr_vals h n AND m \<noteq> 0)"
proof
  assume "\<exists>n. ready_at m h k n"
  then show "\<exists>n\<ge>k. sr_vals h n AND m \<noteq> 0"
    by (auto simp add: ready_at_def)
next
  assume "\<exists>n\<ge>k. sr_vals h n AND m \<noteq> 0"
  then have "\<exists>n. k \<le> n \<and> sr_vals h n AND m \<noteq> 0"
    by blast
  then obtain n where n: "k \<le> n \<and> sr_vals h n AND m \<noteq> 0"
    and least: "\<forall>j<n. \<not> (k \<le> j \<and> sr_vals h j AND m \<noteq> 0)"
    by (subst (asm) exists_least_iff) blast
  have "ready_at m h k n"
    unfolding ready_at_def using n least by simp
  then show "\<exists>n. ready_at m h k n" ..
qed

lemma busy_wait_ready:
  "ready_at m h (sr_cnt h) n \<Longrightarrow>
   busy_wait m h = Done (h\<lparr>sr_cnt := Suc n, trace := trace h @ polls h (sr_cnt h) n\<rparr>)"
  by (simp add: busy_wait_def wait_sr_ready)

lemma busy_wait_Hang:
  "busy_wait m h = Hang \<longleftrightarrow> \<not> (\<exists>n\<ge>sr_cnt h. sr_vals h n AND m \<noteq> 0)"
proof -
  have "wait_sr m h = None \<longleftrightarrow> \<not> (\<exists>n. ready_at m h (sr_cnt h) n)"
    using wait_sr_Some wait_sr_ready by (metis option.distinct(1) option.exhaust)
  then show ?thesis
    by (cases "wait_sr m h") (simp_all add: busy_wait_def ready_at_ex)
qed

lemma busy_wait_no_Fault: "busy_wait m h \<noteq> Fault e"
  by (simp add: busy_wait_def split: option.splits)

lemma SR_TXRDY_bit: "v AND SR_TXRDY \<noteq> 0 \<longleftrightarrow> bit v 1"
  using and_exp_eq_0_iff_not_bit [of v 1] by (simp add: SR_TXRDY_def)

lemma SR_RXRDY_bit: "v AND SR_RXRDY \<noteq> 0 \<longleftrightarrow> bit v 0"
  by (simp add: SR_RXRDY_def and_one_eq bit_0 mod_2_eq_odd)

lemma andThen_Done_iff:
  "andThen r f = Done y \<longleftrightarrow> (\<exists>x. r = Done x \<and> f x = Done y)"
  by (cases r) simp_all

lemma andThen_Fault_iff:
  "andThen r f = Fault e \<longleftrightarrow> r = Fault e \<or> (\<exists>x. r = Done x \<and> f x = Fault e)"
  by (cases r) simp_all

lemma ready_at_unique:
  assumes "ready_at m h k n" and "ready_at m h k n'"
  shows "n = n'"
proof (cases n n' rule: linorder_cases)
  case less
  then have "n \<in> {k..<n'}"
    using assms(1) by (simp add: ready_at_def)
  then show ?thesis
    using assms by (simp add: ready_at_def)
next
  case greater
  then have "n' \<in> {k..<n}"
    using assms(2) by (simp add: ready_at_def)
  then show ?thesis
    using assms by (simp add: ready_at_def)
qed

lemma busy_wait_Done_iff:
  "busy_wait m h = Done h' \<longleftrightarrow>
     (\<exists>n. ready_at m h (sr_cnt h) n \<and>
        h' = h\<lparr>sr_cnt := Suc n, trace := trace h @ polls h (sr_cnt h) n\<rparr>)"
proof (cases "\<exists>n. ready_at m h (sr_cnt h) n")
  case True
  then obtain n where n: "ready_at m h (sr_cnt h) n"
    by blast
  have eq: "busy_wait m h = Done (h\<lparr>sr_cnt := Suc n, trace := trace h @ polls h (sr_cnt h) n\<rparr>)"
    using n by (rule busy_wait_ready)
  show ?thesis
  proof
    assume "busy_wait m h = Done h'"
    then have "h' = h\<lparr>sr_cnt := Suc n, trace := trace h @ polls h (sr_cnt h) n\<rparr>"
      by (simp only: eq result.inject)
    then show "\<exists>n. ready_at m h (sr_cnt h) n \<and>
        h' = h\<lparr>sr_cnt := Suc n, trace := trace h @ polls h (sr_cnt h) n\<rparr>"
      using n by blast
  next
    assume "\<exists>n. ready_at m h (sr_cnt h) n \<and>
        h' = h\<lparr>sr_cnt := Suc n, trace := trace h @ polls h (sr_cnt h) n\<rparr>"
    then obtain n' where n': "ready_at m h (sr_cnt h) n'"
      and h': "h' = h\<lparr>sr_cnt := Suc n', trace := trace h @ polls h (sr_cnt h) n'\<rparr>"
      by blast
    have "n' = n"
      using n' n by (rule ready_at_unique)
    then show "busy_wait m h = Done h'"
      by (simp only: eq h')
  qed
next
  case False
  then have "busy_wait m h = Hang"
    by (simp add: busy_wait_Hang ready_at_ex)
  then show ?thesis
    using False by simp
qed

subsection \<open>dbgu\_putc and dbgu\_getc\<close>

lemma write_after_wait:
  "write_reg r v (h\<lparr>sr_cnt := k, trace := es\<rparr>) = h\<lparr>sr_cnt := k, trace := es @ [Wr r v]\<rparr>"
  by (simp add: write_reg_def)

lemma wait_then_write:
  "andThen (busy_wait m h) (\<lambda>h1. Done (write_reg r v h1)) = Done h' \<longleftrightarrow>
     (\<exists>n. ready_at m h (sr_cnt h) n \<and>
        h' = h\<lparr>sr_cnt := Suc n, trace := trace h @ polls h (sr_cnt h) n @ [Wr r v]\<rparr>)"
  unfolding andThen_Done_iff busy_wait_Done_iff
  by (simp only: ex_simps [symmetric] result.inject write_after_wait append_assoc)
     (metis write_after_wait append_assoc)

lemma dbgu_putc_plain_iff:
  assumes "c \<noteq> chr CHR 0x0A"
  shows "dbgu_putc c h = Done h' \<longleftrightarrow>
     (\<exists>n. ready_at SR_TXRDY h (sr_cnt h) n \<and>
        h' = h\<lparr>sr_cnt := Suc n,
               trace := trace h @ polls h (sr_cnt h) n @ [Wr DBGU_THR (ucast c)]\<rparr>)"
proof -
  have "dbgu_putc c h =
      andThen (busy_wait SR_TXRDY h) (\<lambda>h3. Done (write_reg DBGU_THR (ucast c) h3))"
    using assms by (simp add: dbgu_putc_def)
  then show ?thesis
    by (simp only: wait_then_write)
qed

lemma dbgu_putc_newline_iff:
  "dbgu_putc (chr CHR 0x0A) h = Done h' \<longleftrightarrow>
     (\<exists>n1 n2. ready_at SR_TXRDY h (sr_cnt h) n1 \<and> ready_at SR_TXRDY h (Suc n1) n2 \<and>
        h' = h\<lparr>sr_cnt := Suc n2,
               trace := trace h @ polls h (sr_cnt h) n1 @ [Wr DBGU_THR 0x0D]
                 @ polls h (Suc n1) n2 @ [Wr DBGU_THR 0x0A]\<rparr>)"
proof -
  let ?cr = "\<lambda>h1. Done (write_reg DBGU_THR 0x0D h1)"
  let ?lf = "\<lambda>h3. Done (write_reg DBGU_THR 0x0A h3)"
  have def: "dbgu_putc (chr CHR 0x0A) h =
      andThen (andThen (busy_wait SR_TXRDY h) ?cr) (\<lambda>h2. andThen (busy_wait SR_TXRDY h2) ?lf)"
    by (simp add: dbgu_putc_def)
  show ?thesis
  proof
    assume "dbgu_putc (chr CHR 0x0A) h = Done h'"
    then obtain h2 where a: "andThen (busy_wait SR_TXRDY h) ?cr = Done h2"
      and b: "andThen (busy_wait SR_TXRDY h2) ?lf = Done h'"
      unfolding def andThen_Done_iff [of _ "\<lambda>h2. andThen (busy_wait SR_TXRDY h2) ?lf"] by blast
    from a obtain n1 where n1: "ready_at SR_TXRDY h (sr_cnt h) n1"
      and h2: "h2 = h\<lparr>sr_cnt := Suc n1,
               trace := trace h @ polls h (sr_cnt h) n1 @ [Wr DBGU_THR 0x0D]\<rparr>"
      unfolding wait_then_write by blast
    from b obtain n2 where n2: "ready_at SR_TXRDY h2 (sr_cnt h2) n2"
      and h': "h' = h2\<lparr>sr_cnt := Suc n2,
               trace := trace h2 @ polls h2 (sr_cnt h2) n2 @ [Wr DBGU_THR 0x0A]\<rparr>"
      unfolding wait_then_write by blast
    have "ready_at SR_TXRDY h (Suc n1) n2"
      using n2 by (simp add: h2 ready_at_def)
    moreover have "h' = h\<lparr>sr_cnt := Suc n2,
               trace := trace h @ polls h (sr_cnt h) n1 @ [Wr DBGU_THR 0x0D]
                 @ polls h (Suc n1) n2 @ [Wr DBGU_THR 0x0A]\<rparr>"
      by (simp add: h' h2 polls_def)
    ultimately show "\<exists>n1 n2. ready_at SR_TXRDY h (sr_cnt h) n1 \<and> ready_at SR_TXRDY h (Suc n1) n2 \<and>
        h' = h\<lparr>sr_cnt := Suc n2,
               trace := trace h @ polls h (sr_cnt h) n1 @ [Wr DBGU_THR 0x0D]
                 @ polls h (Suc n1) n2 @ [Wr DBGU_THR 0x0A]\<rparr>"
      using n1 by blast
  next
    assume "\<exists>n1 n2. ready_at SR_TXRDY h (sr_cnt h) n1 \<and> ready_at SR_TXRDY h (Suc n1) n2 \<and>
        h' = h\<lparr>sr_cnt := Suc n2,
               trace := trace h @ polls h (sr_cnt h) n1 @ [Wr DBGU_THR 0x0D]
                 @ polls h (Suc n1) n2 @ [Wr DBGU_THR 0x0A]\<rparr>"
    then obtain n1 n2 where n1: "ready_at SR_TXRDY h (sr_cnt h) n1"
      and n2: "ready_at SR_TXRDY h (Suc n1) n2"
      and h': "h' = h\<lparr>sr_cnt := Suc n2,
               trace := trace h @ polls h (sr_cnt h) n1 @ [Wr DBGU_THR 0x0D]
                 @ polls h (Suc n1) n2 @ [Wr DBGU_THR 0x0A]\<rparr>"
      by blast
    define h2 where "h2 = h\<lparr>sr_cnt := Suc n1,
               trace := trace h @ polls h (sr_cnt h) n1 @ [Wr DBGU_THR 0x0D]\<rparr>"
    have a: "andThen (busy_wait SR_TXRDY h) ?cr = Done h2"
      unfolding wait_then_write h2_def using n1 by blast
    have "ready_at SR_TXRDY h2 (sr_cnt h2) n2"
      using n2 by (simp add: h2_def ready_at_def)
    moreover have "h' = h2\<lparr>sr_cnt := Suc n2,
               trace := trace h2 @ polls h2 (sr_cnt h2) n2 @ [Wr DBGU_THR 0x0A]\<rparr>"
      by (simp add: h' h2_def polls_def)
    ultimately have b: "andThen (busy_wait SR_TXRDY h2) ?lf = Done h'"
      unfolding wait_then_write by blast
    show "dbgu_putc (chr CHR 0x0A) h = Done h'"
      unfolding def by (simp only: a andThen.simps b)
  qed
qed

lemma dbgu_putc_no_Fault: "dbgu_putc c h \<noteq> Fault e"
  by (simp add: dbgu_putc_def andThen_Fault_iff busy_wait_no_Fault)

lemma dbgu_getc_no_Fault: "dbgu_getc h \<noteq> Fault e"
  by (simp add: dbgu_getc_def andThen_Fault_iff busy_wait_no_Fault read_RHR_def)

lemma result_Hang_iff:
  "(\<And>e. r \<noteq> Fault e) \<Longrightarrow> r = Hang \<longleftrightarrow> (\<forall>x. r \<noteq> Done x)"
  by (cases r) auto

lemma ready_at_le:
  "ready_at m h k n \<Longrightarrow> k \<le> a \<Longrightarrow> sr_vals h a AND m \<noteq> 0 \<Longrightarrow> n \<le> a"
  unfolding ready_at_def by (meson atLeastLessThan_iff not_le_imp_less)

lemma ready_at_twice_ex:
  "(\<exists>n1 n2. ready_at m h k n1 \<and> ready_at m h (Suc n1) n2) \<longleftrightarrow>
   (\<exists>n1\<ge>k. \<exists>n2>n1. sr_vals h n1 AND m \<noteq> 0 \<and> sr_vals h n2 AND m \<noteq> 0)"
proof
  assume "\<exists>n1 n2. ready_at m h k n1 \<and> ready_at m h (Suc n1) n2"
  then obtain n1 n2 where "ready_at m h k n1" "ready_at m h (Suc n1) n2"
    by blast
  then have "k \<le> n1 \<and> n1 < n2 \<and> sr_vals h n1 AND m \<noteq> 0 \<and> sr_vals h n2 AND m \<noteq> 0"
    by (simp add: ready_at_def)
  then show "\<exists>n1\<ge>k. \<exists>n2>n1. sr_vals h n1 AND m \<noteq> 0 \<and> sr_vals h n2 AND m \<noteq> 0"
    by blast
next
  assume "\<exists>n1\<ge>k. \<exists>n2>n1. sr_vals h n1 AND m \<noteq> 0 \<and> sr_vals h n2 AND m \<noteq> 0"
  then obtain a b where a: "k \<le> a" "sr_vals h a AND m \<noteq> 0"
    and b: "a < b" "sr_vals h b AND m \<noteq> 0"
    by blast
  from a obtain n1 where n1: "ready_at m h k n1"
    using ready_at_ex [of m h k] by blast
  then have "n1 \<le> a"
    using a by (rule ready_at_le)
  then have "Suc n1 \<le> b"
    using b(1) by simp
  then obtain n2 where "ready_at m h (Suc n1) n2"
    using b(2) ready_at_ex [of m h "Suc n1"] by blast
  then show "\<exists>n1 n2. ready_at m h k n1 \<and> ready_at m h (Suc n1) n2"
    using n1 by blast
qed

lemma dbgu_putc_Hang_iff:
  "dbgu_putc c h = Hang \<longleftrightarrow>
     \<not> (if c = chr CHR 0x0A
        then \<exists>n1\<ge>sr_cnt h. \<exists>n2>n1. bit (sr_vals h n1) 1 \<and> bit (sr_vals h n2) 1
        else \<exists>n\<ge>sr_cnt h. bit (sr_vals h n) 1)"
proof -
  have hang: "dbgu_putc c h = Hang \<longleftrightarrow> (\<forall>h'. dbgu_putc c h \<noteq> Done h')"
    by (rule result_Hang_iff) (rule dbgu_putc_no_Fault)
  show ?thesis
  proof (cases "c = chr CHR 0x0A")
    case True
    have "(\<exists>h'. dbgu_putc c h = Done h') \<longleftrightarrow>
        (\<exists>n1 n2. ready_at SR_TXRDY h (sr_cnt h) n1 \<and> ready_at SR_TXRDY h (Suc n1) n2)"
      unfolding True dbgu_putc_newline_iff by blast
    then have "(\<exists>h'. dbgu_putc c h = Done h') \<longleftrightarrow>
        (\<exists>n1\<ge>sr_cnt h. \<exists>n2>n1. bit (sr_vals h n1) 1 \<and> bit (sr_vals h n2) 1)"
      by (simp only: ready_at_twice_ex SR_TXRDY_bit)
    then have "dbgu_putc c h = Hang \<longleftrightarrow>
        \<not> (\<exists>n1\<ge>sr_cnt h. \<exists>n2>n1. bit (sr_vals h n1) 1 \<and> bit (sr_vals h n2) 1)"
      unfolding hang by blast
    then show ?thesis
      using True by (simp only: simp_thms if_True)
  next
    case False
    have "(\<exists>h'. dbgu_putc c h = Done h') \<longleftrightarrow> (\<exists>n. ready_at SR_TXRDY h (sr_cnt h) n)"
      unfolding dbgu_putc_plain_iff [OF False] by blast
    then have "(\<exists>h'. dbgu_putc c h = Done h') \<longleftrightarrow> (\<exists>n\<ge>sr_cnt h. bit (sr_vals h n) 1)"
      by (simp only: ready_at_ex SR_TXRDY_bit)
    then have "dbgu_putc c h = Hang \<longleftrightarrow> \<not> (\<exists>n\<ge>sr_cnt h. bit (sr_vals h n) 1)"
      unfolding hang by blast
    then show ?thesis
      using False by (simp only: simp_thms if_False)
  qed
qed

lemma andThen_busy_wait_Done_iff:
  "andThen (busy_wait m h) f = Done y \<longleftrightarrow>
     (\<exists>n. ready_at m h (sr_cnt h) n \<and>
        f (h\<lparr>sr_cnt := Suc n, trace := trace h @ polls h (sr_cnt h) n\<rparr>) = Done y)"
  unfolding andThen_Done_iff busy_wait_Done_iff by blast

lemma dbgu_getc_Done_iff:
  "dbgu_getc h = Done (b, h') \<longleftrightarrow>
     (\<exists>n. ready_at SR_RXRDY h (sr_cnt h) n \<and> b = ucast (rhr_vals h (rhr_cnt h)) \<and>
        h' = h\<lparr>sr_cnt := Suc n, rhr_cnt := Suc (rhr_cnt h),
               trace := trace h @ polls h (sr_cnt h) n @ [Rd DBGU_RHR (rhr_vals h (rhr_cnt h))]\<rparr>)"
proof -
  have rhr: "(case read_RHR (h\<lparr>sr_cnt := k, trace := es\<rparr>) of (v, h2) \<Rightarrow> Done (ucast v :: u8, h2)) =
      Done (ucast (rhr_vals h (rhr_cnt h)),
        h\<lparr>sr_cnt := k, rhr_cnt := Suc (rhr_cnt h),
          trace := es @ [Rd DBGU_RHR (rhr_vals h (rhr_cnt h))]\<rparr>)" for k es
    by (simp add: read_RHR_def)
  have "dbgu_getc h = Done (b, h') \<longleftrightarrow>
     (\<exists>n. ready_at SR_RXRDY h (sr_cnt h) n \<and> ucast (rhr_vals h (rhr_cnt h)) = b \<and>
        h\<lparr>sr_cnt := Suc n, rhr_cnt := Suc (rhr_cnt h),
               trace := (trace h @ polls h (sr_cnt h) n) @ [Rd DBGU_RHR (rhr_vals h (rhr_cnt h))]\<rparr> = h')"
    unfolding dbgu_getc_def andThen_busy_wait_Done_iff rhr result.inject prod.inject ..
  also have "\<dots> \<longleftrightarrow>
     (\<exists>n. ready_at SR_RXRDY h (sr_cnt h) n \<and> b = ucast (rhr_vals h (rhr_cnt h)) \<and>
        h' = h\<lparr>sr_cnt := Suc n, rhr_cnt := Suc (rhr_cnt h),
               trace := trace h @ polls h (sr_cnt h) n @ [Rd DBGU_RHR (rhr_vals h (rhr_cnt h))]\<rparr>)"
    unfolding append_assoc by blast
  finally show ?thesis .
qed

lemma dbgu_getc_Hang_iff:
  "dbgu_getc h = Hang \<longleftrightarrow> \<not> (\<exists>n\<ge>sr_cnt h. bit (sr_vals h n) 0)"
proof -
  have hang: "dbgu_getc h = Hang \<longleftrightarrow> (\<forall>x. dbgu_getc h \<noteq> Done x)"
    by (rule result_Hang_iff) (rule dbgu_getc_no_Fault)
  have "(\<exists>x. dbgu_getc h = Done x) \<longleftrightarrow> (\<exists>b h'. dbgu_getc h = Done (b, h'))"
    by simp
  also have "\<dots> \<longleftrightarrow> (\<exists>n. ready_at SR_RXRDY h (sr_cnt h) n)"
    unfolding dbgu_getc_Done_iff by blast
  also have "\<dots> \<longleftrightarrow> (\<exists>n\<ge>sr_cnt h. bit (sr_vals h n) 0)"
    by (simp only: ready_at_ex SR_RXRDY_bit)
  finally show ?thesis
    unfolding hang by blast
qed

lemma guarded_polls:
  assumes "r \<noteq> DBGU_SR"
  shows "guarded m r ok (map (\<lambda>j. Rd DBGU_SR (f j)) js @ es) =
     guarded m r (if js = [] then ok else f (last js) AND m \<noteq> 0) es"
  using assms by (induction js arbitrary: ok) simp_all

lemma guarded_wait:
  assumes "r \<noteq> DBGU_SR" and "ready_at m h k n"
  shows "guarded m r ok (polls h k n @ es) = guarded m r True es"
proof -
  have "k \<le> n" and "sr_vals h n AND m \<noteq> 0"
    using assms(2) by (simp_all add: ready_at_def)
  then show ?thesis
    unfolding polls_def guarded_polls [OF assms(1)] by simp
qed

lemma dbgu_putc_guarded:
  assumes "dbgu_putc c h = Done h'"
  shows "\<exists>es. trace h' = trace h @ es \<and> guarded SR_TXRDY DBGU_THR False es"
proof (cases "c = chr CHR 0x0A")
  case True
  with assms obtain n1 n2 where n1: "ready_at SR_TXRDY h (sr_cnt h) n1"
    and n2: "ready_at SR_TXRDY h (Suc n1) n2"
    and h': "h' = h\<lparr>sr_cnt := Suc n2,
               trace := trace h @ polls h (sr_cnt h) n1 @ [Wr DBGU_THR 0x0D]
                 @ polls h (Suc n1) n2 @ [Wr DBGU_THR 0x0A]\<rparr>"
    unfolding True dbgu_putc_newline_iff by blast
  let ?es = "polls h (sr_cnt h) n1 @ [Wr DBGU_THR 0x0D] @ polls h (Suc n1) n2 @ [Wr DBGU_THR 0x0A]"
  have "trace h' = trace h @ ?es"
    by (simp add: h')
  moreover have "guarded SR_TXRDY DBGU_THR False ?es"
    by (simp add: guarded_wait [OF _ n1] guarded_wait [OF _ n2])
  ultimately show ?thesis
    by blast
next
  case False
  with assms obtain n where n: "ready_at SR_TXRDY h (sr_cnt h) n"
    and h': "h' = h\<lparr>sr_cnt := Suc n,
               trace := trace h @ polls h (sr_cnt h) n @ [Wr DBGU_THR (ucast c)]\<rparr>"
    unfolding dbgu_putc_plain_iff [OF False] by blast
  let ?es = "polls h (sr_cnt h) n @ [Wr DBGU_THR (ucast c)]"
  have "trace h' = trace h @ ?es"
    by (simp add: h')
  moreover have "guarded SR_TXRDY DBGU_THR False ?es"
    by (simp add: guarded_wait [OF _ n])
  ultimately show ?thesis
    by blast
qed

lemma dbgu_getc_guarded:
  assumes "dbgu_getc h = Done (b, h')"
  shows "\<exists>es. trace h' = trace h @ es \<and> guarded SR_RXRDY DBGU_RHR False es"
proof -
  from assms obtain n where n: "ready_at SR_RXRDY h (sr_cnt h) n"
    and h': "h' = h\<lparr>sr_cnt := Suc n, rhr_cnt := Suc (rhr_cnt h),
               trace := trace h @ polls h (sr_cnt h) n @ [Rd DBGU_RHR (rhr_vals h (rhr_cnt h))]\<rparr>"
    unfolding dbgu_getc_Done_iff by blast
  let ?es = "polls h (sr_cnt h) n @ [Rd DBGU_RHR (rhr_vals h (rhr_cnt h))]"
  have "trace h' = trace h @ ?es"
    by (simp add: h')
  moreover have "guarded SR_RXRDY DBGU_RHR False ?es"
    by (simp add: guarded_wait [OF _ n])
  ultimately show ?thesis
    by blast
qed

lemma wait_sr_None_iff:
  "wait_sr m h \<noteq> None \<longleftrightarrow> (\<exists>n\<ge>sr_cnt h. sr_vals h n AND m \<noteq> 0)"
  using busy_wait_Hang [of m h] by (cases "wait_sr m h") (simp_all add: busy_wait_def)

text \<open>
  C3. dbgu\_putc returns exactly when the status reads it makes come to show TXRDY
  (bit 1), and then it has done this and nothing else. For a character other than
  newline: it polls the status register up to the first read \<open>n\<close> that shows TXRDY and
  writes the character to the transmit register, once. For newline: it polls up to the
  first read \<open>n1\<close> that shows TXRDY and writes carriage return (0x0D); then it polls
  again, from the next read on and at least once, up to the first read \<open>n2\<close> that shows
  TXRDY, and writes newline (0x0A). The second wait does not rely on the first.
\<close>

theorem dbgu_putc_crlf:
  "(c \<noteq> chr CHR 0x0A \<longrightarrow>
      (dbgu_putc c h = Done h' \<longleftrightarrow>
        (\<exists>n. ready_at SR_TXRDY h (sr_cnt h) n \<and>
           h' = h\<lparr>sr_cnt := Suc n,
                  trace := trace h @ polls h (sr_cnt h) n @ [Wr DBGU_THR (ucast c)]\<rparr>)))
   \<and> (dbgu_putc (chr CHR 0x0A) h = Done h' \<longleftrightarrow>
        (\<exists>n1 n2. ready_at SR_TXRDY h (sr_cnt h) n1 \<and> ready_at SR_TXRDY h (Suc n1) n2 \<and>
           h' = h\<lparr>sr_cnt := Suc n2,
                  trace := trace h @ polls h (sr_cnt h) n1 @ [Wr DBGU_THR 0x0D]
                    @ polls h (Suc n1) n2 @ [Wr DBGU_THR 0x0A]\<rparr>))
   \<and> (v AND SR_TXRDY \<noteq> 0 \<longleftrightarrow> bit v 1)"
  using dbgu_putc_plain_iff [of c h h'] dbgu_putc_newline_iff [of h h'] SR_TXRDY_bit [of v]
  by blast

theorem dbgu_putc_crlf_witness:
  "dbgu_putc (chr CHR 0x0A) (power_on (\<lambda>k. if k = 1 \<or> k = 3 then 2 else 0) (\<lambda>k. 0)) =
     Done \<lparr>sr_vals = \<lambda>k. if k = 1 \<or> k = 3 then 2 else 0, sr_cnt = 4,
           rhr_vals = \<lambda>k. 0, rhr_cnt = 0,
           trace = [Rd DBGU_SR 0, Rd DBGU_SR 2, Wr DBGU_THR 0x0D,
                    Rd DBGU_SR 0, Rd DBGU_SR 2, Wr DBGU_THR 0x0A]\<rparr>
   \<and> dbgu_putc (chr CHR ''A'') (power_on (\<lambda>k. if k = 1 \<or> k = 3 then 2 else 0) (\<lambda>k. 0)) =
     Done \<lparr>sr_vals = \<lambda>k. if k = 1 \<or> k = 3 then 2 else 0, sr_cnt = 2,
           rhr_vals = \<lambda>k. 0, rhr_cnt = 0,
           trace = [Rd DBGU_SR 0, Rd DBGU_SR 2, Wr DBGU_THR 0x41]\<rparr>"
proof -
  define h0 where "h0 = power_on (\<lambda>k. if k = 1 \<or> k = 3 then 2 else 0) (\<lambda>k. 0)"
  have r1: "ready_at SR_TXRDY h0 (sr_cnt h0) 1"
    by (simp add: ready_at_def h0_def power_on_def SR_TXRDY_def)
  have r2: "ready_at SR_TXRDY h0 (Suc 1) 3"
    by (auto simp add: ready_at_def h0_def power_on_def SR_TXRDY_def)
  have p1: "polls h0 (sr_cnt h0) 1 = [Rd DBGU_SR 0, Rd DBGU_SR 2]"
    by (simp add: polls_def h0_def power_on_def upt_rec)
  have p2: "polls h0 (Suc 1) 3 = [Rd DBGU_SR 0, Rd DBGU_SR 2]"
    by (simp add: polls_def h0_def power_on_def upt_rec)
  have "dbgu_putc (chr CHR 0x0A) h0 =
      Done (h0\<lparr>sr_cnt := Suc 3,
          trace := trace h0 @ polls h0 (sr_cnt h0) 1 @ [Wr DBGU_THR 0x0D]
            @ polls h0 (Suc 1) 3 @ [Wr DBGU_THR 0x0A]\<rparr>)"
    using dbgu_putc_crlf [of "chr CHR 0x0A" h0 _ 0] r1 r2 by blast
  moreover have "dbgu_putc (chr CHR ''A'') h0 =
      Done (h0\<lparr>sr_cnt := Suc 1,
          trace := trace h0 @ polls h0 (sr_cnt h0) 1 @ [Wr DBGU_THR (ucast (chr CHR ''A''))]\<rparr>)"
    using dbgu_putc_crlf [of "chr CHR ''A''" h0 _ 0] r1 by simp blast
  ultimately show ?thesis
    unfolding p1 p2 by (simp add: h0_def power_on_def)
qed

text \<open>
  C8. dbgu\_getc returns exactly when the status reads it makes come to show RXRDY
  (bit 0). It then has polled the status register up to the first such read, has read
  the receive register once, and returns that value cut to its low 8 bits. All the events
  it adds to the trace are reads: it writes no register.
\<close>

theorem dbgu_getc_reads:
  "(dbgu_getc h = Done (b, h') \<longleftrightarrow>
      (\<exists>n. ready_at SR_RXRDY h (sr_cnt h) n \<and> b = ucast (rhr_vals h (rhr_cnt h)) \<and>
         h' = h\<lparr>sr_cnt := Suc n, rhr_cnt := Suc (rhr_cnt h),
                trace := trace h @ polls h (sr_cnt h) n
                  @ [Rd DBGU_RHR (rhr_vals h (rhr_cnt h))]\<rparr>))
   \<and> (v AND SR_RXRDY \<noteq> 0 \<longleftrightarrow> bit v 0)
   \<and> unat (ucast (w :: u32) :: u8) = unat w mod 256"
proof -
  have "unat (ucast w :: u8) = unat w mod 256"
    by (simp add: unsigned_ucast_eq take_bit_eq_mod)
  then show ?thesis
    using dbgu_getc_Done_iff [of h b h'] SR_RXRDY_bit [of v] by blast
qed

theorem dbgu_getc_reads_witness:
  "dbgu_getc (power_on (\<lambda>k. if k = 2 then 1 else 0) (\<lambda>k. 0x141)) =
     Done (0x41, \<lparr>sr_vals = \<lambda>k. if k = 2 then 1 else 0, sr_cnt = 3,
           rhr_vals = \<lambda>k. 0x141, rhr_cnt = 1,
           trace = [Rd DBGU_SR 0, Rd DBGU_SR 0, Rd DBGU_SR 1, Rd DBGU_RHR 0x141]\<rparr>)"
proof -
  define h0 where "h0 = power_on (\<lambda>k. if k = 2 then 1 else 0) (\<lambda>k. 0x141)"
  have r: "ready_at SR_RXRDY h0 (sr_cnt h0) 2"
    by (simp add: ready_at_def h0_def power_on_def SR_RXRDY_def)
  have p: "polls h0 (sr_cnt h0) 2 = [Rd DBGU_SR 0, Rd DBGU_SR 0, Rd DBGU_SR 1]"
    by (simp add: polls_def h0_def power_on_def upt_rec)
  have "dbgu_getc h0 = Done (ucast (rhr_vals h0 (rhr_cnt h0)),
      h0\<lparr>sr_cnt := Suc 2, rhr_cnt := Suc (rhr_cnt h0),
         trace := trace h0 @ polls h0 (sr_cnt h0) 2 @ [Rd DBGU_RHR (rhr_vals h0 (rhr_cnt h0))]\<rparr>)"
    using dbgu_getc_reads [of h0 _ _ 0 0] r by blast
  then show ?thesis
    unfolding p by (simp add: h0_def power_on_def)
qed

text \<open>
  C9. The loop waiting for TXRDY (bit 1) ends if and only if some status read from the
  current one on shows the bit, however late, and likewise the loop waiting for RXRDY
  (bit 0). So dbgu\_putc does not return exactly when that read never comes (for newline:
  when two such reads never come), and dbgu\_getc likewise; neither ever ends in any
  other way than by returning (no timeout, no failure). When they return, every write
  of the transmit register and every read of the receive register comes right after a
  status read that showed the ready bit.
\<close>

theorem busy_wait_unbounded:
  "(wait_sr SR_TXRDY h \<noteq> None \<longleftrightarrow> (\<exists>n\<ge>sr_cnt h. bit (sr_vals h n) 1))
   \<and> (wait_sr SR_RXRDY h \<noteq> None \<longleftrightarrow> (\<exists>n\<ge>sr_cnt h. bit (sr_vals h n) 0))
   \<and> (dbgu_putc c h = Hang \<longleftrightarrow>
        \<not> (if c = chr CHR 0x0A
           then \<exists>n1\<ge>sr_cnt h. \<exists>n2>n1. bit (sr_vals h n1) 1 \<and> bit (sr_vals h n2) 1
           else \<exists>n\<ge>sr_cnt h. bit (sr_vals h n) 1))
   \<and> (dbgu_getc h = Hang \<longleftrightarrow> \<not> (\<exists>n\<ge>sr_cnt h. bit (sr_vals h n) 0))
   \<and> dbgu_putc c h \<noteq> Fault e \<and> dbgu_getc h \<noteq> Fault e
   \<and> (dbgu_putc c h = Done h' \<longrightarrow>
        (\<exists>es. trace h' = trace h @ es \<and> guarded SR_TXRDY DBGU_THR False es))
   \<and> (dbgu_getc h = Done (b, h'') \<longrightarrow>
        (\<exists>es. trace h'' = trace h @ es \<and> guarded SR_RXRDY DBGU_RHR False es))"
proof -
  have "wait_sr SR_TXRDY h \<noteq> None \<longleftrightarrow> (\<exists>n\<ge>sr_cnt h. bit (sr_vals h n) 1)"
    by (simp only: wait_sr_None_iff SR_TXRDY_bit)
  moreover have "wait_sr SR_RXRDY h \<noteq> None \<longleftrightarrow> (\<exists>n\<ge>sr_cnt h. bit (sr_vals h n) 0)"
    by (simp only: wait_sr_None_iff SR_RXRDY_bit)
  ultimately show ?thesis
    using dbgu_putc_Hang_iff [of c h] dbgu_getc_Hang_iff [of h]
      dbgu_putc_no_Fault [of c h e] dbgu_getc_no_Fault [of h e]
      dbgu_putc_guarded [of c h h'] dbgu_getc_guarded [of h b h'']
    by blast
qed

theorem busy_wait_unbounded_witness:
  "dbgu_putc (chr CHR ''A'') (power_on (\<lambda>k. 0) (\<lambda>k. 0)) = Hang
   \<and> dbgu_getc (power_on (\<lambda>k. 0) (\<lambda>k. 0)) = Hang
   \<and> wait_sr SR_TXRDY (power_on (\<lambda>k. if k = 1000 then 2 else 0) (\<lambda>k. 0)) \<noteq> None
   \<and> dbgu_putc (chr CHR 0x0A) (power_on (\<lambda>k. if k = 7 then 2 else 0) (\<lambda>k. 0)) = Hang
   \<and> guarded SR_TXRDY DBGU_THR False [Rd DBGU_SR 0, Rd DBGU_SR 2, Wr DBGU_THR 0x41]
   \<and> \<not> guarded SR_TXRDY DBGU_THR False [Rd DBGU_SR 0, Wr DBGU_THR 0x41]"
proof -
  have a: "dbgu_putc (chr CHR ''A'') (power_on (\<lambda>k. 0) (\<lambda>k. 0)) = Hang"
    using busy_wait_unbounded [of "power_on (\<lambda>k. 0) (\<lambda>k. 0)" "chr CHR ''A''"]
    by (simp add: power_on_def)
  have b: "dbgu_getc (power_on (\<lambda>k. 0) (\<lambda>k. 0)) = Hang"
    using busy_wait_unbounded [of "power_on (\<lambda>k. 0) (\<lambda>k. 0)"]
    by (simp add: power_on_def)
  have "bit (2 :: u32) 1"
    by (simp add: bit_numeral_Bit0_iff)
  then have "\<exists>n\<ge>0::nat. bit (if n = 1000 then 2 else 0 :: u32) 1"
    by (intro exI [of _ 1000]) simp
  then have c: "wait_sr SR_TXRDY (power_on (\<lambda>k. if k = 1000 then 2 else 0) (\<lambda>k. 0)) \<noteq> None"
    using busy_wait_unbounded [of "power_on (\<lambda>k. if k = 1000 then 2 else 0) (\<lambda>k. 0)"]
    by (simp add: power_on_def)
  have d: "dbgu_putc (chr CHR 0x0A) (power_on (\<lambda>k. if k = 7 then 2 else 0) (\<lambda>k. 0)) = Hang"
    using busy_wait_unbounded [of "power_on (\<lambda>k. if k = 7 then 2 else 0) (\<lambda>k. 0)" "chr CHR 0x0A"]
    by (simp add: power_on_def)
  define h0 where "h0 = power_on (\<lambda>k. if k = 1 then 2 else 0) (\<lambda>k. 0)"
  define h1 where "h1 = h0\<lparr>sr_cnt := Suc 1,
      trace := trace h0 @ polls h0 (sr_cnt h0) 1 @ [Wr DBGU_THR (ucast (chr CHR ''A''))]\<rparr>"
  have "ready_at SR_TXRDY h0 (sr_cnt h0) 1"
    by (simp add: ready_at_def h0_def power_on_def SR_TXRDY_def)
  then have "dbgu_putc (chr CHR ''A'') h0 = Done h1"
    unfolding h1_def by (subst dbgu_putc_plain_iff) (simp, blast)
  then obtain es where "trace h1 = trace h0 @ es" and "guarded SR_TXRDY DBGU_THR False es"
    using busy_wait_unbounded [of h0 "chr CHR ''A''" _ h1] by blast
  moreover have "trace h0 = []"
    by (simp add: h0_def power_on_def)
  moreover have "trace h1 = [Rd DBGU_SR 0, Rd DBGU_SR 2, Wr DBGU_THR 0x41]"
    by (simp add: h1_def h0_def power_on_def polls_def upt_rec)
  ultimately have e: "guarded SR_TXRDY DBGU_THR False [Rd DBGU_SR 0, Rd DBGU_SR 2, Wr DBGU_THR 0x41]"
    by simp
  have f: "\<not> guarded SR_TXRDY DBGU_THR False [Rd DBGU_SR 0, Wr DBGU_THR 0x41]"
    by (simp add: SR_TXRDY_def)
  show ?thesis
    using a b c d e f by blast
qed

subsection \<open>dbgu\_puts and the bytes on the line\<close>

lemma andThen_assoc:
  "andThen (andThen r f) g = andThen r (\<lambda>x. andThen (f x) g)"
  by (cases r) simp_all

lemma andThen_ext:
  "(\<And>x. f x = g x) \<Longrightarrow> andThen r f = andThen r g"
  by (cases r) simp_all

lemma send_all_append:
  "send_all (xs @ ys) h = andThen (send_all xs h) (\<lambda>h'. send_all ys h')"
proof (induction xs arbitrary: h)
  case Nil
  show ?case by simp
next
  case (Cons x xs)
  have "andThen (dbgu_putc x h) (\<lambda>h'. send_all (xs @ ys) h') =
      andThen (dbgu_putc x h) (\<lambda>h'. andThen (send_all xs h') (\<lambda>h''. send_all ys h''))"
    by (rule andThen_ext) (rule Cons.IH)
  then show ?case
    by (simp add: andThen_assoc)
qed

lemma send_all_no_Fault: "send_all cs h \<noteq> Fault e"
  by (induction cs arbitrary: h) (simp_all add: andThen_Fault_iff dbgu_putc_no_Fault)

lemma puts_loop_terminated:
  "0 \<notin> set cs \<Longrightarrow> puts_loop (map Some cs @ Some 0 # rest) h = send_all cs h"
proof (induction cs arbitrary: h)
  case Nil
  show ?case by simp
next
  case (Cons c cs)
  have "andThen (dbgu_putc c h) (\<lambda>h'. puts_loop (map Some cs @ Some 0 # rest) h') =
      andThen (dbgu_putc c h) (\<lambda>h'. send_all cs h')"
    using Cons.prems by (intro andThen_ext Cons.IH) simp
  then show ?case
    using Cons.prems by simp
qed

lemma tx_bytes_append: "tx_bytes (xs @ ys) = tx_bytes xs @ tx_bytes ys"
  by (induction xs rule: tx_bytes.induct) simp_all

lemma tx_bytes_polls: "tx_bytes (polls h k n) = []"
proof -
  have "tx_bytes (map (\<lambda>j. Rd DBGU_SR (f j)) js) = []" for f js
    by (induction js) simp_all
  then show ?thesis
    unfolding polls_def .
qed

lemma byte_through_THR: "(ucast (ucast (c :: u8) :: u32) :: u8) = c"
  by (rule ucast_up_ucast_id) (simp add: is_up)

lemma crlf_simps:
  "crlf [] = []"
  "crlf (c # cs) = (if c = chr CHR 0x0A then [chr CHR 0x0D, c] else [c]) @ crlf cs"
  by (simp_all add: crlf_def)

lemma crlf_append: "crlf (xs @ ys) = crlf xs @ crlf ys"
  by (simp add: crlf_def)

lemma crlf_no_newline: "chr CHR 0x0A \<notin> set cs \<Longrightarrow> crlf cs = cs"
  by (induction cs) (auto simp add: crlf_simps)

lemma tx_live_frame: "sr_vals h' = sr_vals h \<Longrightarrow> tx_live h' = tx_live h"
  by (simp add: tx_live_def)

lemma tx_live_ready: "tx_live h \<Longrightarrow> \<exists>n. ready_at SR_TXRDY h k n"
  unfolding ready_at_ex tx_live_def by blast

lemma dbgu_putc_live:
  assumes "tx_live h"
  shows "\<exists>h'. dbgu_putc c h = Done h' \<and> sr_vals h' = sr_vals h \<and> wire h' = wire h @ crlf [c]"
proof (cases "c = chr CHR 0x0A")
  case True
  obtain n1 where n1: "ready_at SR_TXRDY h (sr_cnt h) n1"
    using tx_live_ready [OF assms] by blast
  obtain n2 where n2: "ready_at SR_TXRDY h (Suc n1) n2"
    using tx_live_ready [OF assms] by blast
  define h' where "h' = h\<lparr>sr_cnt := Suc n2,
               trace := trace h @ polls h (sr_cnt h) n1 @ [Wr DBGU_THR 0x0D]
                 @ polls h (Suc n1) n2 @ [Wr DBGU_THR 0x0A]\<rparr>"
  have "dbgu_putc c h = Done h'"
    unfolding True dbgu_putc_newline_iff h'_def using n1 n2 by blast
  moreover have "sr_vals h' = sr_vals h"
    by (simp add: h'_def)
  moreover have "wire h' = wire h @ crlf [c]"
    by (simp add: h'_def wire_def tx_bytes_append tx_bytes_polls crlf_simps True)
  ultimately show ?thesis
    by blast
next
  case False
  obtain n where n: "ready_at SR_TXRDY h (sr_cnt h) n"
    using tx_live_ready [OF assms] by blast
  define h' where "h' = h\<lparr>sr_cnt := Suc n,
               trace := trace h @ polls h (sr_cnt h) n @ [Wr DBGU_THR (ucast c)]\<rparr>"
  have "dbgu_putc c h = Done h'"
    unfolding dbgu_putc_plain_iff [OF False] h'_def using n by blast
  moreover have "sr_vals h' = sr_vals h"
    by (simp add: h'_def)
  moreover have "wire h' = wire h @ crlf [c]"
    using False
    by (simp add: h'_def wire_def tx_bytes_append tx_bytes_polls crlf_simps byte_through_THR)
  ultimately show ?thesis
    by blast
qed

lemma send_all_live:
  "tx_live h \<Longrightarrow>
   \<exists>h'. send_all cs h = Done h' \<and> sr_vals h' = sr_vals h \<and> wire h' = wire h @ crlf cs"
proof (induction cs arbitrary: h)
  case Nil
  then show ?case
    by (simp add: crlf_simps)
next
  case (Cons c cs)
  obtain h1 where h1: "dbgu_putc c h = Done h1" "sr_vals h1 = sr_vals h"
    "wire h1 = wire h @ crlf [c]"
    using dbgu_putc_live [OF Cons.prems] by blast
  have "tx_live h1"
    using Cons.prems tx_live_frame [OF h1(2)] by simp
  then obtain h' where h': "send_all cs h1 = Done h'" "sr_vals h' = sr_vals h1"
    "wire h' = wire h1 @ crlf cs"
    using Cons.IH by blast
  have "send_all (c # cs) h = Done h'"
    by (simp add: h1(1) h'(1))
  moreover have "sr_vals h' = sr_vals h"
    by (simp add: h'(2) h1(2))
  moreover have "wire h' = wire h @ crlf (c # cs)"
    using crlf_append [of "[c]" cs] by (simp add: h'(3) h1(3))
  ultimately show ?case
    by blast
qed

text \<open>
  C7. dbgu\_puts of the null pointer returns at once and makes no register access. Of a
  string whose characters before the first zero byte are \<open>cs\<close> (of any length) it does
  what sending the characters of \<open>cs\<close> one after the other with dbgu\_putc does, in
  order, and it stops at the zero byte: what lies behind it (\<open>rest\<close>) is never read.
  When the transmitter keeps becoming ready, the call returns and the bytes put on
  the line are those of \<open>cs\<close>, with the carriage return dbgu\_putc adds before each
  newline.
\<close>

theorem dbgu_puts_sends:
  "dbgu_puts None h = Done h
   \<and> (0 \<notin> set cs \<longrightarrow> dbgu_puts (Some (map Some cs @ Some 0 # rest)) h = send_all cs h)
   \<and> (0 \<notin> set cs \<and> tx_live h \<longrightarrow>
        (\<exists>h'. dbgu_puts (Some (map Some cs @ Some 0 # rest)) h = Done h'
           \<and> wire h' = wire h @ crlf cs))
   \<and> (chr CHR 0x0A \<notin> set cs \<longrightarrow> crlf cs = cs)"
proof -
  have "dbgu_puts (Some (map Some cs @ Some 0 # rest)) h = send_all cs h" if "0 \<notin> set cs"
    using that by (simp add: dbgu_puts_def puts_loop_terminated)
  moreover have "\<exists>h'. send_all cs h = Done h' \<and> wire h' = wire h @ crlf cs" if "tx_live h"
    using send_all_live [OF that] by blast
  moreover have "dbgu_puts None h = Done h"
    by (simp add: dbgu_puts_def)
  ultimately show ?thesis
    using crlf_no_newline [of cs] by metis
qed

theorem dbgu_puts_sends_witness:
  "dbgu_puts (Some (c_lit ''Hi!'' @ [Some (chr CHR ''X''), None])) (power_on (\<lambda>k. 2) (\<lambda>k. 0)) =
     send_all (map chr ''Hi!'') (power_on (\<lambda>k. 2) (\<lambda>k. 0))
   \<and> (\<exists>h'. dbgu_puts (Some (c_lit ''Hi!'' @ [Some (chr CHR ''X''), None]))
          (power_on (\<lambda>k. 2) (\<lambda>k. 0)) = Done h'
        \<and> wire h' = map chr ''Hi!'')
   \<and> (\<exists>h'. dbgu_puts (Some (c_lit [CHR ''a'', CHR 0x0A])) (power_on (\<lambda>k. 2) (\<lambda>k. 0)) = Done h'
        \<and> wire h' = [chr CHR ''a'', chr CHR 0x0D, chr CHR 0x0A])"
proof -
  define h0 where "h0 = power_on (\<lambda>k. 2) (\<lambda>k. 0)"
  have live: "tx_live h0"
    unfolding tx_live_def by (auto simp add: h0_def power_on_def SR_TXRDY_def)
  have w: "wire h0 = []"
    by (simp add: wire_def h0_def power_on_def)
  have s1: "c_lit ''Hi!'' @ [Some (chr CHR ''X''), None] =
      map Some (map chr ''Hi!'') @ Some 0 # [Some (chr CHR ''X''), None]"
    by (simp add: c_lit_def)
  have s2: "c_lit [CHR ''a'', CHR 0x0A] = map Some [chr CHR ''a'', chr CHR 0x0A] @ Some 0 # []"
    by (simp add: c_lit_def)
  have z1: "0 \<notin> set (map chr ''Hi!'')" and z2: "0 \<notin> set [chr CHR ''a'', chr CHR 0x0A]"
    by simp_all
  have c1: "crlf (map chr ''Hi!'') = map chr ''Hi!''"
    and c2: "crlf [chr CHR ''a'', chr CHR 0x0A] = [chr CHR ''a'', chr CHR 0x0D, chr CHR 0x0A]"
    by (simp_all add: crlf_simps)
  have "dbgu_puts (Some (c_lit ''Hi!'' @ [Some (chr CHR ''X''), None])) h0 =
      send_all (map chr ''Hi!'') h0"
    unfolding s1 using dbgu_puts_sends [of h0 "map chr ''Hi!''"] z1 by blast
  moreover have "\<exists>h'. dbgu_puts (Some (c_lit ''Hi!'' @ [Some (chr CHR ''X''), None])) h0 = Done h'
        \<and> wire h' = map chr ''Hi!''"
    unfolding s1 using dbgu_puts_sends [of h0 "map chr ''Hi!''"] z1 live
    by (simp only: w c1 append_Nil) blast
  moreover have "\<exists>h'. dbgu_puts (Some (c_lit [CHR ''a'', CHR 0x0A])) h0 = Done h'
        \<and> wire h' = [chr CHR ''a'', chr CHR 0x0D, chr CHR 0x0A]"
    unfolding s2 using dbgu_puts_sends [of h0 "[chr CHR ''a'', chr CHR 0x0A]" "[]"] z2 live
    by (simp only: w c2 append_Nil) blast
  ultimately show ?thesis
    unfolding h0_def by blast
qed

subsection \<open>Hexadecimal notation\<close>

declare hex_render.simps [simp del] utoa_hex_while.simps [simp del] utoa_hex_for.simps [simp del]

lemma length_d: "length d = 17"
  by (simp add: d_def c_lit_def)

lemma d_nth:
  assumes "k < 16"
  shows "d ! k = Some (hex_digit k)"
proof -
  have "length ''0123456789abcdef'' = 16"
    by simp
  with assms have "k < length ''0123456789abcdef''"
    by simp
  then show ?thesis
    by (simp only: d_def c_lit_def hex_digit_def nth_append length_map nth_map if_True)
qed

lemma rd_d: "k < 16 \<Longrightarrow> rd d (int k) = Done (hex_digit k)"
  by (simp add: rd_def length_d d_nth)

lemma low_nibble: "uint (v AND 0xF :: 'a::len word) = int (unat v mod 16)"
proof -
  have "(0xF :: 'a word) = mask 4"
    by (simp add: mask_eq_exp_minus_1)
  then have "v AND 0xF = take_bit 4 v"
    by (simp add: take_bit_eq_mask)
  then have "unat (v AND 0xF) = take_bit 4 (unat v)"
    by (simp add: unsigned_take_bit_eq)
  then show ?thesis
    by (simp add: uint_nat take_bit_eq_mod)
qed

lemma shifted: "unat (drop_bit 4 (v :: 'a::len word)) = unat v div 16"
  unfolding unat_drop_bit_eq by (simp add: drop_bit_eq_div)

lemma below_16: "k < 16 \<Longrightarrow> k \<in> set [0, 1, 2, 3, 4, 5, 6, 7, 8, 9, 10, 11, 12, 13, 14, 15 :: nat]"
  by simp arith

lemma hex_val_digit: "k < 16 \<Longrightarrow> hex_val (hex_digit k) = Some k"
proof -
  have "\<forall>k\<in>set [0, 1, 2, 3, 4, 5, 6, 7, 8, 9, 10, 11, 12, 13, 14, 15 :: nat].
      hex_val (hex_digit k) = Some k"
    by (simp add: hex_val_def hex_digit_def)
  then show "k < 16 \<Longrightarrow> hex_val (hex_digit k) = Some k"
    using below_16 by blast
qed

lemma hex_digit_plain: "k < 16 \<Longrightarrow> hex_digit k \<noteq> 0 \<and> hex_digit k \<noteq> chr CHR 0x0A"
proof -
  have "\<forall>k\<in>set [0, 1, 2, 3, 4, 5, 6, 7, 8, 9, 10, 11, 12, 13, 14, 15 :: nat].
      hex_digit k \<noteq> 0 \<and> hex_digit k \<noteq> chr CHR 0x0A"
    by (simp add: hex_digit_def)
  then show "k < 16 \<Longrightarrow> hex_digit k \<noteq> 0 \<and> hex_digit k \<noteq> chr CHR 0x0A"
    using below_16 by blast
qed

lemma hex_digit_zero: "k < 16 \<Longrightarrow> hex_digit k = chr CHR ''0'' \<longleftrightarrow> k = 0"
proof -
  have "\<forall>k\<in>set [0, 1, 2, 3, 4, 5, 6, 7, 8, 9, 10, 11, 12, 13, 14, 15 :: nat].
      hex_digit k = chr CHR ''0'' \<longleftrightarrow> k = 0"
    by (simp add: hex_digit_def)
  then show "k < 16 \<Longrightarrow> hex_digit k = chr CHR ''0'' \<longleftrightarrow> k = 0"
    using below_16 by blast
qed

lemma hex_render_small: "n < 16 \<Longrightarrow> hex_render n = [hex_digit n]"
  by (subst hex_render.simps) simp

lemma hex_render_big:
  "\<not> n < 16 \<Longrightarrow> hex_render n = hex_render (n div 16) @ [hex_digit (n mod 16)]"
  by (subst hex_render.simps) simp

lemma hex_render_not_Nil: "hex_render n \<noteq> []"
  by (cases "n < 16") (simp_all add: hex_render_small hex_render_big)

lemma hex_render_plain: "0 \<notin> set (hex_render n) \<and> chr CHR 0x0A \<notin> set (hex_render n)"
proof (induction n rule: hex_render.induct)
  case (1 n)
  show ?case
  proof (cases "n < 16")
    case True
    then show ?thesis
      using hex_digit_plain [of n] by (auto simp add: hex_render_small)
  next
    case False
    have "n mod 16 < 16"
      by simp
    then show ?thesis
      using False 1 hex_digit_plain [of "n mod 16"] by (auto simp add: hex_render_big)
  qed
qed

lemma hex_render_length: "0 < k \<Longrightarrow> n < 16 ^ k \<Longrightarrow> length (hex_render n) \<le> k"
proof (induction k arbitrary: n)
  case 0
  then show ?case by simp
next
  case (Suc k)
  show ?case
  proof (cases "n < 16")
    case True
    then show ?thesis
      by (simp add: hex_render_small)
  next
    case False
    with Suc.prems have "0 < k"
      by (cases k) simp_all
    moreover have "n div 16 < 16 ^ k"
      using Suc.prems(2) by (simp add: less_mult_imp_div_less mult.commute)
    ultimately have "length (hex_render (n div 16)) \<le> k"
      by (rule Suc.IH)
    then show ?thesis
      using False by (simp add: hex_render_big)
  qed
qed

lemma hex_render_leading: "n \<noteq> 0 \<Longrightarrow> hd (hex_render n) \<noteq> chr CHR ''0''"
proof (induction n rule: hex_render.induct)
  case (1 n)
  show ?case
  proof (cases "n < 16")
    case True
    then show ?thesis
      using "1.prems" hex_digit_zero [of n] by (simp add: hex_render_small)
  next
    case False
    then have "n div 16 \<noteq> 0"
      by (simp add: div_eq_0_iff)
    then have "hd (hex_render (n div 16)) \<noteq> chr CHR ''0''"
      using False "1.IH" by blast
    then show ?thesis
      using False by (simp add: hex_render_big hex_render_not_Nil)
  qed
qed

lemma parse_hex_from_snoc:
  "parse_hex_from acc (cs @ [c]) =
     (case parse_hex_from acc cs of None \<Rightarrow> None
      | Some a \<Rightarrow> (case hex_val c of None \<Rightarrow> None | Some k \<Rightarrow> Some (16 * a + k)))"
  by (induction cs arbitrary: acc) (simp_all split: option.splits)

lemma parse_hex_from_render: "parse_hex_from 0 (hex_render n) = Some n"
proof (induction n rule: hex_render.induct)
  case (1 n)
  show ?case
  proof (cases "n < 16")
    case True
    then show ?thesis
      by (simp add: hex_render_small hex_val_digit)
  next
    case False
    then have "parse_hex_from 0 (hex_render (n div 16)) = Some (n div 16)"
      using "1.IH" by blast
    then show ?thesis
      using False by (simp add: hex_render_big parse_hex_from_snoc hex_val_digit)
  qed
qed

lemma parse_hex_render: "parse_hex (hex_render n) = Some n"
  by (simp add: parse_hex_def hex_render_not_Nil parse_hex_from_render)

lemma hex_digits_lsf_step:
  "n \<noteq> 0 \<Longrightarrow> hex_digits_lsf n = hex_digit (n mod 16) # hex_digits_lsf (n div 16)"
  by (cases "n < 16") (simp_all add: hex_digits_lsf_def hex_render_small hex_render_big div_eq_0_iff)

subsection \<open>utoa\_hex\<close>

lemma wr_in_range: "k < length a \<Longrightarrow> wr a (int k) b = Done (a[k := Some b])"
  by (simp add: wr_def)

lemma rd_in_range: "k < length a \<Longrightarrow> a ! k = Some b \<Longrightarrow> rd a (int k) = Done b"
  by (simp add: rd_def)

lemma utoa_hex_while_digits:
  fixes v :: "'a::len word"
  assumes "k + length (hex_digits_lsf (unat v)) \<le> length tmp"
  shows "utoa_hex_while v tmp (int k) =
     Done (take k tmp @ map Some (hex_digits_lsf (unat v))
             @ drop (k + length (hex_digits_lsf (unat v))) tmp,
           int (k + length (hex_digits_lsf (unat v))))"
  using assms
proof (induction "unat v" arbitrary: v tmp k rule: less_induct)
  case less
  show ?case
  proof (cases "v = 0")
    case True
    then show ?thesis
      by (subst utoa_hex_while.simps) (simp add: hex_digits_lsf_def)
  next
    case False
    let ?n = "unat v"
    let ?c = "hex_digit (?n mod 16)"
    let ?ds = "hex_digits_lsf (?n div 16)"
    have n: "?n \<noteq> 0"
      using False by (simp add: unat_eq_0)
    then have ds: "hex_digits_lsf ?n = ?c # ?ds"
      by (rule hex_digits_lsf_step)
    have fit: "Suc k + length ?ds \<le> length tmp"
      using less.prems by (simp add: ds)
    then have k: "k < length tmp"
      by simp
    have digit: "rd d (uint (v AND 0xF)) = Done ?c"
      unfolding low_nibble by (rule rd_d) simp
    have store: "wr tmp (int k) ?c = Done (tmp[k := Some ?c])"
      using k by (rule wr_in_range)
    have sh: "unat (drop_bit 4 v) = ?n div 16"
      by (rule shifted)
    have "unat (drop_bit 4 v) < ?n"
      unfolding sh using n by simp
    moreover have "Suc k + length (hex_digits_lsf (unat (drop_bit 4 v))) \<le> length (tmp[k := Some ?c])"
      unfolding sh using fit by simp
    ultimately have "utoa_hex_while (drop_bit 4 v) (tmp[k := Some ?c]) (int (Suc k)) =
        Done (take (Suc k) (tmp[k := Some ?c]) @ map Some (hex_digits_lsf (unat (drop_bit 4 v)))
                @ drop (Suc k + length (hex_digits_lsf (unat (drop_bit 4 v)))) (tmp[k := Some ?c]),
              int (Suc k + length (hex_digits_lsf (unat (drop_bit 4 v)))))"
      by (rule less.hyps)
    then have rest: "utoa_hex_while (drop_bit 4 v) (tmp[k := Some ?c]) (int k + 1) =
        Done (take k tmp @ Some ?c # map Some ?ds @ drop (Suc k + length ?ds) tmp,
              int (Suc k + length ?ds))"
      using k by (simp add: sh take_Suc_conv_app_nth add.commute)
    show ?thesis
      using False by (subst utoa_hex_while.simps) (simp add: digit store rest ds)
  qed
qed

lemma utoa_hex_for_copies:
  assumes "j \<le> length ds" and "length ds \<le> length buf"
  shows "utoa_hex_for (map Some ds @ rest) (int (length ds)) (int j) buf =
     Done (take j buf @ map Some (drop j (rev ds)) @ drop (length ds) buf)"
  using assms
proof (induction "length ds - j" arbitrary: j buf)
  case 0
  then have "j = length ds"
    by simp
  then show ?case
    by (subst utoa_hex_for.simps) simp
next
  case (Suc m)
  let ?n = "length ds"
  let ?c = "rev ds ! j"
  have j: "j < ?n"
    using Suc.hyps(2) by simp
  have idx: "int ?n - 1 - int j = int (?n - Suc j)"
    using j by simp
  have lt: "?n - Suc j < ?n"
    using j by arith
  have "(map Some ds @ rest) ! (?n - Suc j) = Some (ds ! (?n - Suc j))"
    using lt by (simp add: nth_append)
  then have cell: "(map Some ds @ rest) ! (?n - Suc j) = Some ?c"
    using j by (simp add: rev_nth)
  have load: "rd (map Some ds @ rest) (int ?n - 1 - int j) = Done ?c"
    unfolding idx using lt by (intro rd_in_range cell) simp
  have store: "wr buf (int j) ?c = Done (buf[j := Some ?c])"
    using j Suc.prems(2) by (intro wr_in_range) simp
  have "utoa_hex_for (map Some ds @ rest) (int ?n) (int (Suc j)) (buf[j := Some ?c]) =
      Done (take (Suc j) (buf[j := Some ?c]) @ map Some (drop (Suc j) (rev ds))
              @ drop ?n (buf[j := Some ?c]))"
    using Suc.hyps(2) j Suc.prems(2) by (intro Suc.hyps(1)) simp_all
  moreover have "drop j (rev ds) = ?c # drop (Suc j) (rev ds)"
    using j by (simp add: Cons_nth_drop_Suc)
  ultimately have rest: "utoa_hex_for (map Some ds @ rest) (int ?n) (int j + 1) (buf[j := Some ?c]) =
      Done (take j buf @ map Some (drop j (rev ds)) @ drop ?n buf)"
    using j Suc.prems(2) by (simp add: take_Suc_conv_app_nth add.commute)
  show ?case
    using j by (subst utoa_hex_for.simps) (simp add: load store rest)
qed

lemma terminate_at:
  "length xs < length xs + length ys \<Longrightarrow>
   wr (map Some xs @ ys) (int (length xs)) 0 = Done (map Some xs @ Some 0 # tl ys)"
  by (cases ys) (simp_all add: wr_def list_update_append)

lemma utoa_hex_refines:
  fixes v :: "'a::len word"
  assumes "length (hex_render (unat v)) \<le> 2 * sizeof_ulong v"
    and "length (hex_render (unat v)) < length buf"
  shows "utoa_hex v buf =
     Done (map Some (hex_render (unat v)) @ Some 0 # drop (Suc (length (hex_render (unat v)))) buf)"
proof (cases "v = 0")
  case True
  have "hex_render 0 = [chr CHR ''0'']"
    by (simp add: hex_render_small hex_digit_def)
  moreover from assms(2) True this obtain a b bs where "buf = a # b # bs"
    by (cases buf; cases "tl buf") auto
  ultimately show ?thesis
    using True by (simp add: utoa_hex_def wr_def)
next
  case False
  let ?n = "unat v"
  let ?ds = "hex_digits_lsf ?n"
  let ?tmp = "replicate (2 * sizeof_ulong v) None :: cell list"
  have n: "?n \<noteq> 0"
    using False by (simp add: unat_eq_0)
  have len: "length ?ds = length (hex_render ?n)" and rev: "rev ?ds = hex_render ?n"
    using n by (simp_all add: hex_digits_lsf_def)
  have "0 + length ?ds \<le> length ?tmp"
    using assms(1) by (simp add: len)
  then have "utoa_hex_while v ?tmp (int 0) =
      Done (take 0 ?tmp @ map Some ?ds @ drop (0 + length ?ds) ?tmp, int (0 + length ?ds))"
    by (rule utoa_hex_while_digits)
  then have fill: "utoa_hex_while v ?tmp 0 =
      Done (map Some ?ds @ drop (length ?ds) ?tmp, int (length ?ds))"
    by simp
  have "utoa_hex_for (map Some ?ds @ drop (length ?ds) ?tmp) (int (length ?ds)) (int 0) buf =
      Done (take 0 buf @ map Some (drop 0 (rev ?ds)) @ drop (length ?ds) buf)"
    using assms(2) by (intro utoa_hex_for_copies) (simp_all add: len)
  then have copy: "utoa_hex_for (map Some ?ds @ drop (length ?ds) ?tmp) (int (length ?ds)) 0 buf =
      Done (map Some (hex_render ?n) @ drop (length (hex_render ?n)) buf)"
    by (simp add: rev len)
  have "wr (map Some (hex_render ?n) @ drop (length (hex_render ?n)) buf)
          (int (length (hex_render ?n))) 0 =
      Done (map Some (hex_render ?n) @ Some 0 # tl (drop (length (hex_render ?n)) buf))"
    using assms(2) by (intro terminate_at) simp
  then have stop: "wr (map Some (hex_render ?n) @ drop (length (hex_render ?n)) buf)
          (int (length ?ds)) 0 =
      Done (map Some (hex_render ?n) @ Some 0 # drop (Suc (length (hex_render ?n))) buf)"
    by (simp add: len drop_Suc tl_drop)
  show ?thesis
    using False by (simp only: utoa_hex_def if_False fill andThen.simps prod.case copy stop)
qed

lemma ulong_digits_fit:
  fixes v :: "'a::len word"
  assumes "8 dvd LENGTH('a)"
  shows "length (hex_render (unat v)) \<le> 2 * sizeof_ulong v"
proof -
  from assms obtain s where s: "LENGTH('a) = 8 * s"
    by (elim dvdE)
  then have "0 < s"
    by (cases s) simp_all
  have "unat v < 2 ^ LENGTH('a)"
    by simp
  also have "(2 :: nat) ^ LENGTH('a) = 16 ^ (2 * s)"
    unfolding s by (simp add: power_mult)
  finally have "length (hex_render (unat v)) \<le> 2 * s"
    using \<open>0 < s\<close> by (intro hex_render_length) simp_all
  then show ?thesis
    by (simp add: sizeof_ulong_def s)
qed

lemma uint_digits_fit: "length (hex_render (unat (ucast (v :: u32) :: 'a::len word))) \<le> 8"
proof -
  have "unat (ucast v :: 'a word) \<le> unat v"
    by (simp add: unsigned_ucast_eq take_bit_eq_mod)
  also have "unat v < 2 ^ 32"
    using unsigned_less [of v] by simp
  finally have "unat (ucast v :: 'a word) < 16 ^ 8"
    by simp
  then show ?thesis
    by (intro hex_render_length) simp_all
qed

text \<open>
  C2. For every value \<open>v\<close> of an unsigned type whose width is a multiple of 8 bits, and
  every output buffer with room for \<open>2 * sizeof\<close> digits and the terminator, utoa\_hex
  returns, and the string \<open>ds\<close> it leaves in the buffer (the bytes before the zero byte
  it writes) is the hexadecimal numeral of \<open>v\<close>: parsed back as hexadecimal it gives
  \<open>v\<close>; it is not empty; it is the single digit 0 when \<open>v\<close> is 0 and does not start
  with the digit 0 otherwise.
\<close>

theorem utoa_hex_round_trip:
  fixes v :: "'a::len word"
  shows "8 dvd LENGTH('a) \<and> 2 * sizeof_ulong v < length buf \<longrightarrow>
     (\<exists>ds. utoa_hex v buf = Done (map Some ds @ Some 0 # drop (Suc (length ds)) buf)
        \<and> 0 \<notin> set ds
        \<and> parse_hex ds = Some (unat v)
        \<and> ds \<noteq> []
        \<and> (v = 0 \<longrightarrow> ds = [chr CHR ''0''])
        \<and> (v \<noteq> 0 \<longrightarrow> hd ds \<noteq> chr CHR ''0'')
        \<and> ds = hex_render (unat v))"
proof (intro impI, elim conjE)
  assume bytes: "8 dvd LENGTH('a)" and room: "2 * sizeof_ulong v < length buf"
  let ?ds = "hex_render (unat v)"
  have fit: "length ?ds \<le> 2 * sizeof_ulong v"
    using bytes by (rule ulong_digits_fit)
  then have "length ?ds < length buf"
    using room by simp
  with fit have "utoa_hex v buf = Done (map Some ?ds @ Some 0 # drop (Suc (length ?ds)) buf)"
    by (rule utoa_hex_refines)
  moreover have "0 \<notin> set ?ds"
    using hex_render_plain [of "unat v"] by simp
  moreover have "parse_hex ?ds = Some (unat v)"
    by (rule parse_hex_render)
  moreover have "?ds \<noteq> []"
    by (rule hex_render_not_Nil)
  moreover have "?ds = [chr CHR ''0'']" if "v = 0"
    using that by (simp add: hex_render_small hex_digit_def)
  moreover have "hd ?ds \<noteq> chr CHR ''0''" if "v \<noteq> 0"
    using that by (intro hex_render_leading) (simp add: unat_eq_0)
  ultimately show "\<exists>ds. utoa_hex v buf = Done (map Some ds @ Some 0 # drop (Suc (length ds)) buf)
        \<and> 0 \<notin> set ds
        \<and> parse_hex ds = Some (unat v)
        \<and> ds \<noteq> []
        \<and> (v = 0 \<longrightarrow> ds = [chr CHR ''0''])
        \<and> (v \<noteq> 0 \<longrightarrow> hd ds \<noteq> chr CHR ''0'')
        \<and> ds = hex_render (unat v)"
    by blast
qed

lemma hex_render_255: "hex_render 255 = map chr ''ff''"
  by (simp add: hex_render_small hex_render_big hex_digit_def)

theorem utoa_hex_round_trip_witness:
  "8 dvd LENGTH(32) \<and> 2 * sizeof_ulong (255 :: 32 word) < length (replicate 9 (None :: cell))
   \<and> utoa_hex (255 :: 32 word) (replicate 9 None) =
       Done (map Some (map chr ''ff'') @ Some 0 # replicate 6 None)
   \<and> parse_hex (map chr ''ff'') = Some 255
   \<and> utoa_hex (0 :: 32 word) (replicate 9 None) =
       Done (Some (chr CHR ''0'') # Some 0 # replicate 7 None)"
proof -
  have pre: "8 dvd LENGTH(32)" "2 * sizeof_ulong (255 :: 32 word) < length (replicate 9 (None :: cell))"
    "2 * sizeof_ulong (0 :: 32 word) < length (replicate 9 (None :: cell))"
    by (simp_all add: sizeof_ulong_def)
  have six: "drop 3 (replicate 9 (None :: cell)) = replicate 6 None"
    and seven: "drop 2 (replicate 9 (None :: cell)) = replicate 7 None"
    by simp_all
  have a: "utoa_hex (255 :: 32 word) (replicate 9 None) =
       Done (map Some (map chr ''ff'') @ Some 0 # replicate 6 None)
     \<and> parse_hex (map chr ''ff'') = Some 255"
    using utoa_hex_round_trip [of "255 :: 32 word" "replicate 9 None"] pre(1,2)
    by (simp add: hex_render_255 six)
  have b: "utoa_hex (0 :: 32 word) (replicate 9 None) =
       Done (Some (chr CHR ''0'') # Some 0 # replicate 7 None)"
    using utoa_hex_round_trip [of "0 :: 32 word" "replicate 9 None"] pre(1,3)
    by (simp add: seven)
  show ?thesis
    using pre a b by blast
qed

text \<open>
  C10. Every array access of the model is checked: an index outside the array is the
  result \<open>Fault OutOfBounds\<close>, a read of a cell never written \<open>Fault Indeterminate\<close>.
  For every value \<open>v\<close> of an unsigned long whose width is a multiple of 8 bits:
  with an output buffer of at least \<open>2 * sizeof(unsigned long) + 1\<close> cells utoa\_hex
  returns without a fault, having written at most \<open>2 * sizeof(unsigned long)\<close> digits
  and the zero byte right after them, the rest of the buffer left as it was (the
  buffer of the directive p); for a value converted from a 32-bit unsigned int a
  buffer of 9 cells is enough, with at most 8 digits (the buffer of the directive x);
  and the loop that fills \<open>tmp\<close> keeps its index between 0 and the size of \<open>tmp\<close>.
\<close>

theorem utoa_hex_in_bounds:
  fixes v :: "'a::len word" and u :: u32
  shows "(8 dvd LENGTH('a) \<and> 2 * sizeof_ulong v + 1 \<le> length buf \<longrightarrow>
      (\<exists>ds. length ds \<le> 2 * sizeof_ulong v \<and> 0 \<notin> set ds
         \<and> utoa_hex v buf = Done (map Some ds @ Some 0 # drop (Suc (length ds)) buf)))
   \<and> (8 dvd LENGTH('a) \<and> length b9 = 9 \<longrightarrow>
      (\<exists>ds. length ds \<le> 8 \<and> 0 \<notin> set ds
         \<and> utoa_hex (ucast u :: 'a word) b9 = Done (map Some ds @ Some 0 # drop (Suc (length ds)) b9)))
   \<and> (8 dvd LENGTH('a) \<longrightarrow>
      (\<exists>tmp i. utoa_hex_while v (replicate (2 * sizeof_ulong v) None) 0 = Done (tmp, i)
         \<and> 0 \<le> i \<and> i \<le> int (2 * sizeof_ulong v) \<and> length tmp = 2 * sizeof_ulong v))"
proof (intro conjI impI; (elim conjE)?)
  assume bytes: "8 dvd LENGTH('a)" and room: "2 * sizeof_ulong v + 1 \<le> length buf"
  let ?ds = "hex_render (unat v)"
  have fit: "length ?ds \<le> 2 * sizeof_ulong v"
    using bytes by (rule ulong_digits_fit)
  then have "length ?ds < length buf"
    using room by simp
  with fit have "utoa_hex v buf = Done (map Some ?ds @ Some 0 # drop (Suc (length ?ds)) buf)"
    by (rule utoa_hex_refines)
  moreover have "0 \<notin> set ?ds"
    using hex_render_plain [of "unat v"] by simp
  ultimately show "\<exists>ds. length ds \<le> 2 * sizeof_ulong v \<and> 0 \<notin> set ds
         \<and> utoa_hex v buf = Done (map Some ds @ Some 0 # drop (Suc (length ds)) buf)"
    using fit by blast
next
  assume bytes: "8 dvd LENGTH('a)" and nine: "length b9 = 9"
  let ?w = "ucast u :: 'a word"
  let ?ds = "hex_render (unat ?w)"
  have fit: "length ?ds \<le> 2 * sizeof_ulong ?w"
    using bytes by (rule ulong_digits_fit)
  have eight: "length ?ds \<le> 8"
    by (rule uint_digits_fit)
  then have "length ?ds < length b9"
    using nine by simp
  with fit have "utoa_hex ?w b9 = Done (map Some ?ds @ Some 0 # drop (Suc (length ?ds)) b9)"
    by (rule utoa_hex_refines)
  moreover have "0 \<notin> set ?ds"
    using hex_render_plain [of "unat ?w"] by simp
  ultimately show "\<exists>ds. length ds \<le> 8 \<and> 0 \<notin> set ds
         \<and> utoa_hex ?w b9 = Done (map Some ds @ Some 0 # drop (Suc (length ds)) b9)"
    using eight by blast
next
  assume bytes: "8 dvd LENGTH('a)"
  let ?ds = "hex_digits_lsf (unat v)"
  let ?tmp = "replicate (2 * sizeof_ulong v) None :: cell list"
  have "length ?ds \<le> length (hex_render (unat v))"
    by (simp add: hex_digits_lsf_def)
  also have "\<dots> \<le> 2 * sizeof_ulong v"
    using bytes by (rule ulong_digits_fit)
  finally have fit: "length ?ds \<le> 2 * sizeof_ulong v" .
  then have "0 + length ?ds \<le> length ?tmp"
    by simp
  then have "utoa_hex_while v ?tmp (int 0) =
      Done (take 0 ?tmp @ map Some ?ds @ drop (0 + length ?ds) ?tmp, int (0 + length ?ds))"
    by (rule utoa_hex_while_digits)
  then have "utoa_hex_while v ?tmp 0 =
      Done (map Some ?ds @ drop (length ?ds) ?tmp, int (length ?ds))"
    by simp
  moreover have "length (map Some ?ds @ drop (length ?ds) ?tmp) = 2 * sizeof_ulong v"
    using fit by simp
  ultimately show "\<exists>tmp i. utoa_hex_while v ?tmp 0 = Done (tmp, i)
         \<and> 0 \<le> i \<and> i \<le> int (2 * sizeof_ulong v) \<and> length tmp = 2 * sizeof_ulong v"
    using fit by (intro exI conjI) (assumption, simp_all)
qed

lemma hex_render_max32: "hex_render 4294967295 = map chr ''ffffffff''"
  by (simp add: hex_render_small hex_render_big hex_digit_def)

theorem utoa_hex_in_bounds_witness:
  "8 dvd LENGTH(32) \<and> 2 * sizeof_ulong (0xFFFFFFFF :: 32 word) + 1 \<le> length (replicate 9 (None :: cell))
   \<and> utoa_hex (0xFFFFFFFF :: 32 word) (replicate 9 None) =
        Done (map Some (map chr ''ffffffff'') @ [Some 0])
   \<and> 8 dvd LENGTH(64)
   \<and> (\<exists>ds. length ds \<le> 8 \<and> 0 \<notin> set ds
        \<and> utoa_hex (ucast (0xFFFFFFFF :: u32) :: 64 word) (replicate 9 None) =
            Done (map Some ds @ Some 0 # drop (Suc (length ds)) (replicate 9 None)))"
proof -
  have pre: "8 dvd LENGTH(32)"
    "2 * sizeof_ulong (0xFFFFFFFF :: 32 word) + 1 \<le> length (replicate 9 (None :: cell))"
    "8 dvd LENGTH(64)" "length (replicate 9 (None :: cell)) = 9"
    by (simp_all add: sizeof_ulong_def)
  obtain ds where ds: "length ds \<le> 2 * sizeof_ulong (0xFFFFFFFF :: 32 word)" "0 \<notin> set ds"
    "utoa_hex (0xFFFFFFFF :: 32 word) (replicate 9 None) =
       Done (map Some ds @ Some 0 # drop (Suc (length ds)) (replicate 9 None))"
    using utoa_hex_in_bounds [of "0xFFFFFFFF :: 32 word" "replicate 9 None"] pre(1,2) by blast
  have "utoa_hex (0xFFFFFFFF :: 32 word) (replicate 9 None) =
      Done (map Some (map chr ''ffffffff'') @ Some 0 # drop 9 (replicate 9 None))"
    using utoa_hex_refines [of "0xFFFFFFFF :: 32 word" "replicate 9 None"]
    by (simp add: hex_render_max32 sizeof_ulong_def)
  with ds(3) have "map Some ds @ Some 0 # drop (Suc (length ds)) (replicate 9 None) =
      map Some (map chr ''ffffffff'') @ [Some 0 :: cell]"
    by simp
  with ds(3) have a: "utoa_hex (0xFFFFFFFF :: 32 word) (replicate 9 None) =
        Done (map Some (map chr ''ffffffff'') @ [Some 0])"
    by (simp only:)
  have b: "\<exists>ds. length ds \<le> 8 \<and> 0 \<notin> set ds
        \<and> utoa_hex (ucast (0xFFFFFFFF :: u32) :: 64 word) (replicate 9 None) =
            Done (map Some ds @ Some 0 # drop (Suc (length ds)) (replicate 9 None))"
    using utoa_hex_in_bounds [where ?'a = 64, of _ _ "replicate 9 None" "0xFFFFFFFF"] pre(3,4)
    by blast
  show ?thesis
    using pre(1,2,3) a b by blast
qed

subsection \<open>tiny\_printf\<close>

lemma c_lit_cells: "c_lit s = map Some (map chr s) @ Some 0 # []"
  by (simp add: c_lit_def)

lemma dbgu_puts_cells:
  "0 \<notin> set cs \<Longrightarrow> dbgu_puts (Some (map Some cs @ Some 0 # rest)) h = send_all cs h"
  by (simp add: dbgu_puts_def puts_loop_terminated)

lemma dbgu_puts_lit:
  "0 \<notin> set (map chr s) \<Longrightarrow> dbgu_puts (Some (c_lit s)) h = send_all (map chr s) h"
  unfolding c_lit_cells by (rule dbgu_puts_cells)

lemma loop_end: "tiny_printf_loop (Some 0 # rest) ap h = Done h"
  by simp

lemma loop_plain:
  "c \<noteq> 0 \<Longrightarrow> c \<noteq> chr CHR ''%'' \<Longrightarrow>
   tiny_printf_loop (Some c # p) ap h = andThen (dbgu_putc c h) (\<lambda>h'. tiny_printf_loop p ap h')"
  by simp

lemma loop_percent:
  "tiny_printf_loop (Some (chr CHR ''%'') # Some (chr CHR ''%'') # p) ap h =
     andThen (dbgu_putc (chr CHR ''%'') h) (\<lambda>h'. tiny_printf_loop p ap h')"
  by simp

lemma loop_dangling:
  "tiny_printf_loop (Some (chr CHR ''%'') # Some 0 # rest) ap h = dbgu_putc (chr CHR ''%'') h"
  by simp

lemma loop_other:
  "e \<notin> {0, chr CHR ''%'', chr CHR ''c'', chr CHR ''s'', chr CHR ''x'', chr CHR ''p''} \<Longrightarrow>
   tiny_printf_loop (Some (chr CHR ''%'') # Some e # p) ap h =
     andThen (dbgu_putc (chr CHR ''%'') h)
       (\<lambda>h1. andThen (dbgu_putc e h1) (\<lambda>h2. tiny_printf_loop p ap h2))"
  by simp

lemma loop_s:
  "tiny_printf_loop (Some (chr CHR ''%'') # Some (chr CHR ''s'') # p) (VaStr s # ap) h =
     andThen (dbgu_puts (Some (case s of None \<Rightarrow> c_lit ''(null)'' | Some q \<Rightarrow> q)) h)
       (\<lambda>h'. tiny_printf_loop p ap h')"
  by simp

lemma loop_s_null:
  "tiny_printf_loop (Some (chr CHR ''%'') # Some (chr CHR ''s'') # p) (VaStr None # ap) h =
     andThen (send_all (map chr ''(null)'') h) (\<lambda>h'. tiny_printf_loop p ap h')"
  unfolding loop_s by (simp add: dbgu_puts_lit)

lemma loop_s_cells:
  "0 \<notin> set cs \<Longrightarrow>
   tiny_printf_loop (Some (chr CHR ''%'') # Some (chr CHR ''s'') # p)
       (VaStr (Some (map Some cs @ Some 0 # rest)) # ap) h =
     andThen (send_all cs h) (\<lambda>h'. tiny_printf_loop p ap h')"
  unfolding loop_s by (simp add: dbgu_puts_cells)

lemma loop_x:
  fixes ap :: "'a::len word va_item list"
  assumes "8 dvd LENGTH('a)"
  shows "tiny_printf_loop (Some (chr CHR ''%'') # Some (chr CHR ''x'') # p) (VaUInt u # ap) h =
     andThen (send_all (hex_render (unat (ucast u :: 'a word))) h)
       (\<lambda>h'. tiny_printf_loop p ap h')"
proof -
  let ?w = "ucast u :: 'a word"
  let ?ds = "hex_render (unat ?w)"
  let ?b = "replicate 9 None :: cell list"
  have "length ?ds \<le> 2 * sizeof_ulong ?w"
    using assms by (rule ulong_digits_fit)
  moreover have "length ?ds < length ?b"
    using uint_digits_fit [of u, where ?'a = 'a] by simp
  ultimately have hex: "utoa_hex ?w ?b = Done (map Some ?ds @ Some 0 # drop (Suc (length ?ds)) ?b)"
    by (rule utoa_hex_refines)
  have "0 \<notin> set ?ds"
    using hex_render_plain [of "unat ?w"] by simp
  then have "dbgu_puts (Some (map Some ?ds @ Some 0 # drop (Suc (length ?ds)) ?b)) h = send_all ?ds h"
    by (rule dbgu_puts_cells)
  then show ?thesis
    by (simp add: hex)
qed

lemma loop_p:
  fixes a :: "'a::len word"
  assumes "8 dvd LENGTH('a)"
  shows "tiny_printf_loop (Some (chr CHR ''%'') # Some (chr CHR ''p'') # p) (VaPtr a # ap) h =
     andThen (send_all (map chr ''0x'' @ hex_render (unat a)) h)
       (\<lambda>h'. tiny_printf_loop p ap h')"
proof -
  let ?ds = "hex_render (unat a)"
  let ?b = "replicate (2 * sizeof_ulong a + 1) None :: cell list"
  have "length ?ds \<le> 2 * sizeof_ulong a"
    using assms by (rule ulong_digits_fit)
  moreover from this have "length ?ds < length ?b"
    by simp
  ultimately have hex: "utoa_hex a ?b = Done (map Some ?ds @ Some 0 # drop (Suc (length ?ds)) ?b)"
    by (rule utoa_hex_refines)
  have "0 \<notin> set ?ds"
    using hex_render_plain [of "unat a"] by simp
  then have digits: "dbgu_puts (Some (map Some ?ds @ Some 0 # drop (Suc (length ?ds)) ?b)) h1 =
      send_all ?ds h1" for h1
    by (rule dbgu_puts_cells)
  have prefix: "dbgu_puts (Some (c_lit ''0x'')) h = send_all (map chr ''0x'') h"
    by (rule dbgu_puts_lit) simp
  have "tiny_printf_loop (Some (chr CHR ''%'') # Some (chr CHR ''p'') # p) (VaPtr a # ap) h =
      andThen (send_all (map chr ''0x'') h)
        (\<lambda>h1. andThen (send_all ?ds h1) (\<lambda>h2. tiny_printf_loop p ap h2))"
    by (simp only: tiny_printf_loop.simps va_arg_ptr.simps andThen.simps prod.case
        list.case option.case hex digits prefix) simp
  then show ?thesis
    by (simp only: send_all_append andThen_assoc)
qed

lemma sent_on_wire:
  assumes "tx_live h"
  shows "\<exists>h'. andThen (send_all cs h) (\<lambda>h'. Done (0 :: int, h')) = Done (0, h')
     \<and> wire h' = wire h @ crlf cs"
proof -
  obtain h' where "send_all cs h = Done h'" "wire h' = wire h @ crlf cs"
    using send_all_live [OF assms] by blast
  then show ?thesis
    by simp
qed

lemma hex_digit_lowercase: "k < 16 \<Longrightarrow> hex_digit k \<in> set (map chr ''0123456789abcdef'')"
proof -
  have "\<forall>k\<in>set [0, 1, 2, 3, 4, 5, 6, 7, 8, 9, 10, 11, 12, 13, 14, 15 :: nat].
      hex_digit k \<in> set (map chr ''0123456789abcdef'')"
    by (simp add: hex_digit_def)
  then show "k < 16 \<Longrightarrow> hex_digit k \<in> set (map chr ''0123456789abcdef'')"
    using below_16 by blast
qed

lemma hex_render_lowercase: "set (hex_render n) \<subseteq> set (map chr ''0123456789abcdef'')"
proof (induction n rule: hex_render.induct)
  case (1 n)
  show ?case
  proof (cases "n < 16")
    case True
    then show ?thesis
      using hex_digit_lowercase [of n] by (simp add: hex_render_small)
  next
    case False
    have "n mod 16 < 16"
      by simp
    then have "hex_digit (n mod 16) \<in> set (map chr ''0123456789abcdef'')"
      by (rule hex_digit_lowercase)
    moreover have "set (hex_render (n div 16)) \<subseteq> set (map chr ''0123456789abcdef'')"
      using False by (rule "1.IH")
    ultimately show ?thesis
      using False by (simp add: hex_render_big)
  qed
qed

lemma hex_render_0: "hex_render 0 = map chr ''0''"
  by (simp add: hex_render_small hex_digit_def)

lemma printf_one:
  assumes "tiny_printf_loop fmt ap h = andThen (send_all cs h) (\<lambda>h'. tiny_printf_loop [Some 0] ap' h')"
  shows "tiny_printf fmt ap h = andThen (send_all cs h) (\<lambda>h'. Done (0, h'))"
  unfolding tiny_printf_def assms by (simp add: andThen_assoc)

lemma printf_x:
  fixes ap :: "'a::len word va_item list"
  assumes "8 dvd LENGTH('a)"
  shows "tiny_printf (c_lit ''%x'') (VaUInt u # ap) h =
     andThen (send_all (hex_render (unat (ucast u :: 'a word))) h) (\<lambda>h'. Done (0, h'))"
proof -
  have "c_lit ''%x'' = [Some (chr CHR ''%''), Some (chr CHR ''x''), Some 0]"
    by (simp add: c_lit_def)
  then show ?thesis
    using loop_x [OF assms, of "[Some 0]" u ap h] by (intro printf_one) simp
qed

lemma printf_p:
  fixes a :: "'a::len word"
  assumes "8 dvd LENGTH('a)"
  shows "tiny_printf (c_lit ''%p'') (VaPtr a # ap) h =
     andThen (send_all (map chr ''0x'' @ hex_render (unat a)) h) (\<lambda>h'. Done (0, h'))"
proof -
  have "c_lit ''%p'' = [Some (chr CHR ''%''), Some (chr CHR ''p''), Some 0]"
    by (simp add: c_lit_def)
  then show ?thesis
    using loop_p [OF assms, of "[Some 0]" a ap h] by (intro printf_one) simp
qed

lemma unat_uint_as_ulong:
  "32 \<le> LENGTH('a) \<Longrightarrow> unat (ucast (u :: u32) :: 'a::len word) = unat u"
proof -
  assume wide: "32 \<le> LENGTH('a)"
  have "unat u < 2 ^ 32"
    using unsigned_less [of u] by simp
  also have "(2 :: nat) ^ 32 \<le> 2 ^ LENGTH('a)"
    using wide by (intro power_increasing) simp_all
  finally show ?thesis
    by (simp add: unsigned_ucast_eq take_bit_eq_mod)
qed

text \<open>
  C4. Where unsigned long has a width of a multiple of 8 bits, at least 32: at the
  directive x tiny\_printf takes one unsigned int argument and sends the digits of its
  hexadecimal numeral (digits 0 to 9 and a to f, no leading 0 for a value other than 0,
  no prefix), then goes on with the rest of the format and of the arguments; at the
  directive p it takes one address argument and sends 0x and then the digits of its
  hexadecimal numeral, whatever the address. With the format "%x" the arguments 0 and
  255 give "0" and "ff", and with "%p" the address 0 gives "0x0"; when the transmitter
  keeps becoming ready the call returns 0 and these are the bytes put on the line.
\<close>

theorem tiny_printf_hex:
  fixes ap :: "'a::len word va_item list" and a :: "'a word"
  shows "8 dvd LENGTH('a) \<and> 32 \<le> LENGTH('a) \<longrightarrow>
     tiny_printf_loop (Some (chr CHR ''%'') # Some (chr CHR ''x'') # p) (VaUInt u # ap) h =
       andThen (send_all (hex_render (unat u)) h) (\<lambda>h'. tiny_printf_loop p ap h')
   \<and> tiny_printf_loop (Some (chr CHR ''%'') # Some (chr CHR ''p'') # p) (VaPtr a # ap) h =
       andThen (send_all (map chr ''0x'' @ hex_render (unat a)) h) (\<lambda>h'. tiny_printf_loop p ap h')
   \<and> set (hex_render (unat u)) \<subseteq> set (map chr ''0123456789abcdef'')
   \<and> (u \<noteq> 0 \<longrightarrow> hd (hex_render (unat u)) \<noteq> chr CHR ''0'')
   \<and> tiny_printf (c_lit ''%x'') (VaUInt 0 # ap) h =
       andThen (send_all (map chr ''0'') h) (\<lambda>h'. Done (0, h'))
   \<and> tiny_printf (c_lit ''%x'') (VaUInt 255 # ap) h =
       andThen (send_all (map chr ''ff'') h) (\<lambda>h'. Done (0, h'))
   \<and> tiny_printf (c_lit ''%p'') (VaPtr 0 # ap) h =
       andThen (send_all (map chr ''0x0'') h) (\<lambda>h'. Done (0, h'))
   \<and> (tx_live h \<longrightarrow>
        (\<exists>h'. tiny_printf (c_lit ''%x'') (VaUInt u # ap) h = Done (0, h')
           \<and> wire h' = wire h @ hex_render (unat u))
      \<and> (\<exists>h'. tiny_printf (c_lit ''%p'') (VaPtr a # ap) h = Done (0, h')
           \<and> wire h' = wire h @ map chr ''0x'' @ hex_render (unat a)))"
proof (intro impI, elim conjE)
  assume bytes: "8 dvd LENGTH('a)" and wide: "32 \<le> LENGTH('a)"
  have same: "unat (ucast v :: 'a word) = unat v" for v :: u32
    using wide by (rule unat_uint_as_ulong)
  have x: "tiny_printf_loop (Some (chr CHR ''%'') # Some (chr CHR ''x'') # p) (VaUInt u # ap) h =
       andThen (send_all (hex_render (unat u)) h) (\<lambda>h'. tiny_printf_loop p ap h')"
    using loop_x [OF bytes, of p u ap h] by (simp only: same)
  have p: "tiny_printf_loop (Some (chr CHR ''%'') # Some (chr CHR ''p'') # p) (VaPtr a # ap) h =
       andThen (send_all (map chr ''0x'' @ hex_render (unat a)) h) (\<lambda>h'. tiny_printf_loop p ap h')"
    using bytes by (rule loop_p)
  have low: "set (hex_render (unat u)) \<subseteq> set (map chr ''0123456789abcdef'')"
    by (rule hex_render_lowercase)
  have lead: "hd (hex_render (unat u)) \<noteq> chr CHR ''0''" if "u \<noteq> 0"
    using that by (intro hex_render_leading) (simp add: unat_eq_0)
  have px: "tiny_printf (c_lit ''%x'') (VaUInt v # ap) h =
       andThen (send_all (hex_render (unat v)) h) (\<lambda>h'. Done (0, h'))" for v
    using printf_x [OF bytes, of v ap h] by (simp only: same)
  have pp: "tiny_printf (c_lit ''%p'') (VaPtr b # ap) h =
       andThen (send_all (map chr ''0x'' @ hex_render (unat b)) h) (\<lambda>h'. Done (0, h'))"
    for b :: "'a word"
    using bytes by (rule printf_p)
  have e1: "tiny_printf (c_lit ''%x'') (VaUInt 0 # ap) h =
       andThen (send_all (map chr ''0'') h) (\<lambda>h'. Done (0, h'))"
    using px [of 0] by (simp add: hex_render_0)
  have e2: "tiny_printf (c_lit ''%x'') (VaUInt 255 # ap) h =
       andThen (send_all (map chr ''ff'') h) (\<lambda>h'. Done (0, h'))"
    using px [of 255] by (simp add: hex_render_255)
  have e3: "tiny_printf (c_lit ''%p'') (VaPtr 0 # ap) h =
       andThen (send_all (map chr ''0x0'') h) (\<lambda>h'. Done (0, h'))"
    using pp [of 0] by (simp add: hex_render_0)
  have w1: "\<exists>h'. tiny_printf (c_lit ''%x'') (VaUInt u # ap) h = Done (0, h')
           \<and> wire h' = wire h @ hex_render (unat u)" if live: "tx_live h"
  proof -
    have "crlf (hex_render (unat u)) = hex_render (unat u)"
      using hex_render_plain [of "unat u"] by (intro crlf_no_newline) simp
    then show ?thesis
      using sent_on_wire [OF live, of "hex_render (unat u)"] by (simp only: px)
  qed
  have w2: "\<exists>h'. tiny_printf (c_lit ''%p'') (VaPtr a # ap) h = Done (0, h')
           \<and> wire h' = wire h @ map chr ''0x'' @ hex_render (unat a)" if live: "tx_live h"
  proof -
    have "crlf (hex_render (unat a)) = hex_render (unat a)"
      using hex_render_plain [of "unat a"] by (intro crlf_no_newline) simp
    moreover have "crlf (map chr ''0x'') = map chr ''0x''"
      by (simp add: crlf_simps)
    ultimately have "crlf (map chr ''0x'' @ hex_render (unat a)) = map chr ''0x'' @ hex_render (unat a)"
      by (simp only: crlf_append)
    then show ?thesis
      using sent_on_wire [OF live, of "map chr ''0x'' @ hex_render (unat a)"] by (simp only: pp)
  qed
  show "tiny_printf_loop (Some (chr CHR ''%'') # Some (chr CHR ''x'') # p) (VaUInt u # ap) h =
       andThen (send_all (hex_render (unat u)) h) (\<lambda>h'. tiny_printf_loop p ap h')
   \<and> tiny_printf_loop (Some (chr CHR ''%'') # Some (chr CHR ''p'') # p) (VaPtr a # ap) h =
       andThen (send_all (map chr ''0x'' @ hex_render (unat a)) h) (\<lambda>h'. tiny_printf_loop p ap h')
   \<and> set (hex_render (unat u)) \<subseteq> set (map chr ''0123456789abcdef'')
   \<and> (u \<noteq> 0 \<longrightarrow> hd (hex_render (unat u)) \<noteq> chr CHR ''0'')
   \<and> tiny_printf (c_lit ''%x'') (VaUInt 0 # ap) h =
       andThen (send_all (map chr ''0'') h) (\<lambda>h'. Done (0, h'))
   \<and> tiny_printf (c_lit ''%x'') (VaUInt 255 # ap) h =
       andThen (send_all (map chr ''ff'') h) (\<lambda>h'. Done (0, h'))
   \<and> tiny_printf (c_lit ''%p'') (VaPtr 0 # ap) h =
       andThen (send_all (map chr ''0x0'') h) (\<lambda>h'. Done (0, h'))
   \<and> (tx_live h \<longrightarrow>
        (\<exists>h'. tiny_printf (c_lit ''%x'') (VaUInt u # ap) h = Done (0, h')
           \<and> wire h' = wire h @ hex_render (unat u))
      \<and> (\<exists>h'. tiny_printf (c_lit ''%p'') (VaPtr a # ap) h = Done (0, h')
           \<and> wire h' = wire h @ map chr ''0x'' @ hex_render (unat a)))"
    using x p low lead e1 e2 e3 w1 w2 by (intro conjI impI) assumption+
qed

theorem tiny_printf_hex_witness:
  "8 dvd LENGTH(32) \<and> 32 \<le> LENGTH(32) \<and> tx_live (power_on (\<lambda>k. 2) (\<lambda>k. 0))
   \<and> (\<exists>h'. tiny_printf (c_lit ''%x'') [VaUInt 255 :: 32 word va_item] (power_on (\<lambda>k. 2) (\<lambda>k. 0)) =
          Done (0, h') \<and> wire h' = map chr ''ff'')
   \<and> (\<exists>h'. tiny_printf (c_lit ''%x'') [VaUInt 0 :: 32 word va_item] (power_on (\<lambda>k. 2) (\<lambda>k. 0)) =
          Done (0, h') \<and> wire h' = map chr ''0'')
   \<and> (\<exists>h'. tiny_printf (c_lit ''%p'') [VaPtr (0 :: 32 word)] (power_on (\<lambda>k. 2) (\<lambda>k. 0)) =
          Done (0, h') \<and> wire h' = map chr ''0x0'')"
proof -
  define h0 where "h0 = power_on (\<lambda>k. 2) (\<lambda>k. 0)"
  have pre: "8 dvd LENGTH(32)" "32 \<le> LENGTH(32)"
    by simp_all
  have live: "tx_live h0"
    unfolding tx_live_def by (auto simp add: h0_def power_on_def SR_TXRDY_def)
  have w: "wire h0 = []"
    by (simp add: wire_def h0_def power_on_def)
  have "\<exists>h'. tiny_printf (c_lit ''%x'') [VaUInt 255 :: 32 word va_item] h0 = Done (0, h')
      \<and> wire h' = wire h0 @ hex_render (unat (255 :: u32))"
    using tiny_printf_hex [where ?'a = 32, of _ 255 "[]" h0 0] pre live by blast
  then have a: "\<exists>h'. tiny_printf (c_lit ''%x'') [VaUInt 255 :: 32 word va_item] h0 = Done (0, h')
      \<and> wire h' = map chr ''ff''"
    by (simp add: w hex_render_255)
  have "\<exists>h'. tiny_printf (c_lit ''%x'') [VaUInt 0 :: 32 word va_item] h0 = Done (0, h')
      \<and> wire h' = wire h0 @ hex_render (unat (0 :: u32))"
    using tiny_printf_hex [where ?'a = 32, of _ 0 "[]" h0 0] pre live by blast
  then have b: "\<exists>h'. tiny_printf (c_lit ''%x'') [VaUInt 0 :: 32 word va_item] h0 = Done (0, h')
      \<and> wire h' = map chr ''0''"
    by (simp add: w hex_render_0)
  have "\<exists>h'. tiny_printf (c_lit ''%p'') [VaPtr (0 :: 32 word)] h0 = Done (0, h')
      \<and> wire h' = wire h0 @ map chr ''0x'' @ hex_render (unat (0 :: 32 word))"
    using tiny_printf_hex [where ?'a = 32, of _ 0 "[]" h0 0] pre live by blast
  then have c: "\<exists>h'. tiny_printf (c_lit ''%p'') [VaPtr (0 :: 32 word)] h0 = Done (0, h')
      \<and> wire h' = map chr ''0x0''"
    by (simp add: w hex_render_0)
  show ?thesis
    using pre live a b c unfolding h0_def by blast
qed

lemma printf_100: 
  "tiny_printf (c_lit ''100%%'') ap h = andThen (send_all (map chr ''100%'') h) (\<lambda>h'. Done (0, h'))"
  by (simp add: tiny_printf_def c_lit_def andThen_assoc)

lemma printf_abc: 
  "tiny_printf (c_lit ''abc%'') ap h = andThen (send_all (map chr ''abc%'') h) (\<lambda>h'. Done (0, h'))"
  by (simp add: tiny_printf_def c_lit_def andThen_assoc)

lemma printf_s:
  assumes "0 \<notin> set cs"
  shows "tiny_printf (c_lit ''%s'') (VaStr (Some (map Some cs @ Some 0 # rest)) # ap) h =
     andThen (send_all cs h) (\<lambda>h'. Done (0, h'))"
proof -
  have "c_lit ''%s'' = [Some (chr CHR ''%''), Some (chr CHR ''s''), Some 0]"
    by (simp add: c_lit_def)
  then show ?thesis
    using loop_s_cells [OF assms, of "[Some 0]" rest ap h] by (intro printf_one) simp
qed

lemma printf_s_null:
  "tiny_printf (c_lit ''%s'') (VaStr None # ap) h =
     andThen (send_all (map chr ''(null)'') h) (\<lambda>h'. Done (0, h'))"
proof -
  have "c_lit ''%s'' = [Some (chr CHR ''%''), Some (chr CHR ''s''), Some 0]"
    by (simp add: c_lit_def)
  then show ?thesis
    using loop_s_null [of "[Some 0]" ap h] by (intro printf_one) simp
qed

text \<open>
  C5. At "%%" tiny\_printf sends one percent sign and goes on behind it with the
  arguments untouched. At a percent sign followed by the end of the format it sends one
  percent sign and stops there, reading nothing further. At a percent sign followed by
  any other character that is not c, s, x or p it sends the percent sign and then that
  character, and goes on with the arguments untouched. None of these fails. The format
  "100%%" sends the four characters 100% and the format "abc%" sends abc%; when the
  transmitter keeps becoming ready these are the bytes put on the line.
\<close>

theorem tiny_printf_passthrough:
  "tiny_printf_loop (Some (chr CHR ''%'') # Some (chr CHR ''%'') # p) ap h =
     andThen (dbgu_putc (chr CHR ''%'') h) (\<lambda>h'. tiny_printf_loop p ap h')
   \<and> tiny_printf_loop (Some (chr CHR ''%'') # Some 0 # rest) ap h = dbgu_putc (chr CHR ''%'') h
   \<and> (e \<notin> {0, chr CHR ''%'', chr CHR ''c'', chr CHR ''s'', chr CHR ''x'', chr CHR ''p''} \<longrightarrow>
        tiny_printf_loop (Some (chr CHR ''%'') # Some e # p) ap h =
          andThen (dbgu_putc (chr CHR ''%'') h)
            (\<lambda>h1. andThen (dbgu_putc e h1) (\<lambda>h2. tiny_printf_loop p ap h2)))
   \<and> tiny_printf (c_lit ''100%%'') ap h =
        andThen (send_all (map chr ''100%'') h) (\<lambda>h'. Done (0, h'))
   \<and> tiny_printf (c_lit ''abc%'') ap h =
        andThen (send_all (map chr ''abc%'') h) (\<lambda>h'. Done (0, h'))
   \<and> (tx_live h \<longrightarrow>
        (\<exists>h'. tiny_printf (c_lit ''100%%'') ap h = Done (0, h')
           \<and> wire h' = wire h @ map chr ''100%'')
      \<and> (\<exists>h'. tiny_printf (c_lit ''abc%'') ap h = Done (0, h')
           \<and> wire h' = wire h @ map chr ''abc%''))"
proof -
  have w1: "\<exists>h'. tiny_printf (c_lit ''100%%'') ap h = Done (0, h')
           \<and> wire h' = wire h @ map chr ''100%''" if live: "tx_live h"
  proof -
    have "crlf (map chr ''100%'') = map chr ''100%''"
      by (simp add: crlf_simps)
    then show ?thesis
      using sent_on_wire [OF live, of "map chr ''100%''"] by (simp only: printf_100)
  qed
  have w2: "\<exists>h'. tiny_printf (c_lit ''abc%'') ap h = Done (0, h')
           \<and> wire h' = wire h @ map chr ''abc%''" if live: "tx_live h"
  proof -
    have "crlf (map chr ''abc%'') = map chr ''abc%''"
      by (simp add: crlf_simps)
    then show ?thesis
      using sent_on_wire [OF live, of "map chr ''abc%''"] by (simp only: printf_abc)
  qed
  show ?thesis
    using loop_percent [of p ap h] loop_dangling [of rest ap h] loop_other [of e p ap h]
      printf_100 [of ap h] printf_abc [of ap h] w1 w2
    by (intro conjI impI) assumption+
qed

theorem tiny_printf_passthrough_witness:
  "chr CHR ''q'' \<notin> {0, chr CHR ''%'', chr CHR ''c'', chr CHR ''s'', chr CHR ''x'', chr CHR ''p''}
   \<and> tx_live (power_on (\<lambda>k. 2) (\<lambda>k. 0))
   \<and> (\<exists>h'. tiny_printf (c_lit ''100%%'') ([] :: 32 word va_item list) (power_on (\<lambda>k. 2) (\<lambda>k. 0)) =
          Done (0, h') \<and> wire h' = map chr ''100%'')
   \<and> (\<exists>h'. tiny_printf (c_lit ''abc%'') ([] :: 32 word va_item list) (power_on (\<lambda>k. 2) (\<lambda>k. 0)) =
          Done (0, h') \<and> wire h' = map chr ''abc%'')
   \<and> tiny_printf_loop (c_lit ''%q'') ([] :: 32 word va_item list) (power_on (\<lambda>k. 2) (\<lambda>k. 0)) =
        send_all (map chr ''%q'') (power_on (\<lambda>k. 2) (\<lambda>k. 0))"
proof -
  define h0 where "h0 = power_on (\<lambda>k. 2) (\<lambda>k. 0)"
  have q: "chr CHR ''q'' \<notin> {0, chr CHR ''%'', chr CHR ''c'', chr CHR ''s'', chr CHR ''x'', chr CHR ''p''}"
    by simp
  have live: "tx_live h0"
    unfolding tx_live_def by (auto simp add: h0_def power_on_def SR_TXRDY_def)
  have w: "wire h0 = []"
    by (simp add: wire_def h0_def power_on_def)
  note inst = tiny_printf_passthrough [of "[Some 0]" "[] :: 32 word va_item list" h0 "[]" "chr CHR ''q''"]
  have "\<exists>h'. tiny_printf (c_lit ''100%%'') ([] :: 32 word va_item list) h0 = Done (0, h')
      \<and> wire h' = wire h0 @ map chr ''100%''"
    using inst live by blast
  then have a: "\<exists>h'. tiny_printf (c_lit ''100%%'') ([] :: 32 word va_item list) h0 = Done (0, h')
      \<and> wire h' = map chr ''100%''"
    by (simp only: w append_Nil)
  have "\<exists>h'. tiny_printf (c_lit ''abc%'') ([] :: 32 word va_item list) h0 = Done (0, h')
      \<and> wire h' = wire h0 @ map chr ''abc%''"
    using inst live by blast
  then have b: "\<exists>h'. tiny_printf (c_lit ''abc%'') ([] :: 32 word va_item list) h0 = Done (0, h')
      \<and> wire h' = map chr ''abc%''"
    by (simp only: w append_Nil)
  have "tiny_printf_loop (Some (chr CHR ''%'') # Some (chr CHR ''q'') # [Some 0])
        ([] :: 32 word va_item list) h0 =
      andThen (dbgu_putc (chr CHR ''%'') h0)
        (\<lambda>h1. andThen (dbgu_putc (chr CHR ''q'') h1)
          (\<lambda>h2. tiny_printf_loop [Some 0] ([] :: 32 word va_item list) h2))"
    using inst q by blast
  moreover have "send_all [] = Done"
    and "send_all (x # xs) = (\<lambda>h. andThen (dbgu_putc x h) (send_all xs))"
    and "tiny_printf_loop [Some 0] ([] :: 32 word va_item list) = Done" for x xs
    by (rule ext, simp)+
  ultimately have c: "tiny_printf_loop (c_lit ''%q'') ([] :: 32 word va_item list) h0 =
      send_all (map chr ''%q'') h0"
    by (simp add: c_lit_def)
  show ?thesis
    using q live a b c unfolding h0_def by blast
qed

text \<open>
  C6. At the directive s with a null pointer argument tiny\_printf sends the 6
  characters (null); with a pointer to a string whose characters before the first zero
  byte are \<open>cs\<close> it sends the characters of \<open>cs\<close> in order. Then it goes on with the
  rest of the format and of the arguments. When the transmitter keeps becoming ready,
  the format "%s" puts exactly (null) on the line for a null pointer and the bytes of
  \<open>cs\<close> otherwise (with the carriage return dbgu\_putc adds before each newline).
\<close>

theorem tiny_printf_string:
  "tiny_printf_loop (Some (chr CHR ''%'') # Some (chr CHR ''s'') # p) (VaStr None # ap) h =
     andThen (send_all (map chr ''(null)'') h) (\<lambda>h'. tiny_printf_loop p ap h')
   \<and> (0 \<notin> set cs \<longrightarrow>
        tiny_printf_loop (Some (chr CHR ''%'') # Some (chr CHR ''s'') # p)
            (VaStr (Some (map Some cs @ Some 0 # rest)) # ap) h =
          andThen (send_all cs h) (\<lambda>h'. tiny_printf_loop p ap h'))
   \<and> length (map chr ''(null)'') = 6
   \<and> tiny_printf (c_lit ''%s'') (VaStr None # ap) h =
        andThen (send_all (map chr ''(null)'') h) (\<lambda>h'. Done (0, h'))
   \<and> (tx_live h \<longrightarrow>
        (\<exists>h'. tiny_printf (c_lit ''%s'') (VaStr None # ap) h = Done (0, h')
           \<and> wire h' = wire h @ map chr ''(null)''))
   \<and> (tx_live h \<and> 0 \<notin> set cs \<longrightarrow>
        (\<exists>h'. tiny_printf (c_lit ''%s'') (VaStr (Some (map Some cs @ Some 0 # rest)) # ap) h =
             Done (0, h')
           \<and> wire h' = wire h @ crlf cs))"
proof -
  have w1: "\<exists>h'. tiny_printf (c_lit ''%s'') (VaStr None # ap) h = Done (0, h')
           \<and> wire h' = wire h @ map chr ''(null)''" if live: "tx_live h"
  proof -
    have "crlf (map chr ''(null)'') = map chr ''(null)''"
      by (simp add: crlf_simps)
    then show ?thesis
      using sent_on_wire [OF live, of "map chr ''(null)''"] by (simp only: printf_s_null)
  qed
  have w2: "\<exists>h'. tiny_printf (c_lit ''%s'') (VaStr (Some (map Some cs @ Some 0 # rest)) # ap) h =
             Done (0, h')
           \<and> wire h' = wire h @ crlf cs" if "tx_live h \<and> 0 \<notin> set cs"
  proof -
    from that have live: "tx_live h" and z: "0 \<notin> set cs"
      by simp_all
    show ?thesis
      using sent_on_wire [OF live, of cs] by (simp only: printf_s [OF z])
  qed
  have six: "length (map chr ''(null)'') = 6"
    by simp
  show ?thesis
    using loop_s_null [of p ap h] loop_s_cells [of cs p rest ap h] printf_s_null [of ap h]
      six w1 w2
    by (intro conjI impI) assumption+
qed

theorem tiny_printf_string_witness:
  "tx_live (power_on (\<lambda>k. 2) (\<lambda>k. 0)) \<and> 0 \<notin> set (map chr ''ok'')
   \<and> (\<exists>h'. tiny_printf (c_lit ''%s'') [VaStr None :: 32 word va_item] (power_on (\<lambda>k. 2) (\<lambda>k. 0)) =
          Done (0, h') \<and> wire h' = map chr ''(null)'')
   \<and> (\<exists>h'. tiny_printf (c_lit ''%s'') [VaStr (Some (c_lit ''ok'')) :: 32 word va_item]
          (power_on (\<lambda>k. 2) (\<lambda>k. 0)) = Done (0, h') \<and> wire h' = map chr ''ok'')"
proof -
  define h0 where "h0 = power_on (\<lambda>k. 2) (\<lambda>k. 0)"
  have z: "0 \<notin> set (map chr ''ok'')"
    by simp
  have live: "tx_live h0"
    unfolding tx_live_def by (auto simp add: h0_def power_on_def SR_TXRDY_def)
  have w: "wire h0 = []"
    by (simp add: wire_def h0_def power_on_def)
  note inst = tiny_printf_string [of "[Some 0]" "[] :: 32 word va_item list" h0 "map chr ''ok''" "[]"]
  have "\<exists>h'. tiny_printf (c_lit ''%s'') [VaStr None :: 32 word va_item] h0 = Done (0, h')
      \<and> wire h' = wire h0 @ map chr ''(null)''"
    using inst live by blast
  then have a: "\<exists>h'. tiny_printf (c_lit ''%s'') [VaStr None :: 32 word va_item] h0 = Done (0, h')
      \<and> wire h' = map chr ''(null)''"
    by (simp only: w append_Nil)
  have "\<exists>h'. tiny_printf (c_lit ''%s'')
        [VaStr (Some (map Some (map chr ''ok'') @ Some 0 # [])) :: 32 word va_item] h0 = Done (0, h')
      \<and> wire h' = wire h0 @ crlf (map chr ''ok'')"
    using inst live z by blast
  then have b: "\<exists>h'. tiny_printf (c_lit ''%s'') [VaStr (Some (c_lit ''ok'')) :: 32 word va_item] h0 =
      Done (0, h') \<and> wire h' = map chr ''ok''"
    by (simp add: w crlf_simps c_lit_cells [of "''ok''"])
  show ?thesis
    using z live a b unfolding h0_def by blast
qed

end
